theory Spec2Isabelle
  imports Main "HOL-Library.Multiset"
begin

section \<open>Errors and results\<close>

text \<open>
  Every way a call can fail is a value. \<open>IndexError\<close>, \<open>ValueError\<close> and \<open>TypeError\<close> are
  the Python exceptions the body of \<open>kk\<close> can raise: popping or indexing an empty list, a bin
  index outside the partition, \<open>max\<close>/\<open>min\<close> of an empty sequence, and an ordering comparison
  of two partition objects. \<open>InvalidConfiguration\<close>, \<open>EmptyInput\<close> and \<open>InvalidValue\<close> are the
  names of the specification's error taxonomy; nothing in kk.py raises the last two.
\<close>

datatype error =
    IndexError
  | ValueError
  | TypeError
  | InvalidConfiguration
  | EmptyInput
  | InvalidValue

text \<open>Sequencing of fallible steps: the first error ends the computation.\<close>

fun ebind :: "error + 'a \<Rightarrow> ('a \<Rightarrow> error + 'b) \<Rightarrow> error + 'b" where
  "ebind (Inl e) f = Inl e"
| "ebind (Inr x) f = f x"

section \<open>Partitions (the Bins object)\<close>

text \<open>
  Modelled from the spec: the state of the class \<open>Bins\<close> in its content-keeping variant,
  which kk.py imports and whose file is not among the sources (specification, sections 3
  and 4.1). A partition has a fixed number \<open>num\<close> of bins, the cached sum of each bin and
  the items of each bin, index-aligned. Item values are Python integers. The value
  function the specification attaches to a partition at creation is passed to
  \<open>add_item_to_bin\<close> explicitly.
\<close>

record 'a partition =
  num :: nat
  sums :: "int list"
  bins :: "'a list list"

text \<open>
  Modelled from the spec: \<open>create_empty(K, value_fn)\<close>, the constructor of the missing
  class \<open>Bins\<close>: a partition with K empty bins, sums all zero; fails if K \<le> 0.
\<close>

definition create_empty :: "int \<Rightarrow> error + 'a partition" where
  "create_empty K =
     (if K \<le> 0 then Inl InvalidConfiguration
      else Inr \<lparr>num = nat K, sums = replicate (nat K) 0, bins = replicate (nat K) []\<rparr>)"

text \<open>
  Modelled from the spec: \<open>add_item(partition, item, bin_index)\<close>, the missing method
  \<open>Bins.add_item_to_bin\<close>, called with \<open>inplace=False\<close>: a new partition with the item
  appended to the bin at \<open>bin_index\<close>, whose sum grows by the item's value; the receiver
  is left as it was. \<open>bin_index\<close> must be in [0, K); outside it the call fails.
\<close>

definition add_item_to_bin ::
  "('a \<Rightarrow> int) \<Rightarrow> 'a partition \<Rightarrow> 'a \<Rightarrow> int \<Rightarrow> error + 'a partition" where
  "add_item_to_bin valueof b item bin_index =
     (if 0 \<le> bin_index \<and> bin_index < int (num b)
           \<and> nat bin_index < length (sums b) \<and> nat bin_index < length (bins b)
      then Inr (b\<lparr>sums := (sums b)[nat bin_index := sums b ! nat bin_index + valueof item],
                 bins := (bins b)[nat bin_index := bins b ! nat bin_index @ [item]]\<rparr>)
      else Inl IndexError)"

text \<open>
  Modelled from the spec: \<open>combine(dest_bin_index, dest_partition, src_bin_index,
  src_partition)\<close>, the missing method \<open>Bins.combine_bins\<close>: appends the items and the sum
  of the source's bin \<open>other_ibin\<close> onto the destination's bin \<open>ibin\<close>. Both indices must
  lie inside their partitions; outside them the call fails.
\<close>

definition combine_bins ::
  "'a partition \<Rightarrow> int \<Rightarrow> 'a partition \<Rightarrow> int \<Rightarrow> error + 'a partition" where
  "combine_bins b ibin other_bin other_ibin =
     (if 0 \<le> ibin \<and> ibin < int (num b)
           \<and> nat ibin < length (sums b) \<and> nat ibin < length (bins b)
           \<and> 0 \<le> other_ibin \<and> other_ibin < int (num other_bin)
           \<and> nat other_ibin < length (sums other_bin)
           \<and> nat other_ibin < length (bins other_bin)
      then Inr (b\<lparr>sums := (sums b)[nat ibin := sums b ! nat ibin + sums other_bin ! nat other_ibin],
                 bins := (bins b)[nat ibin := bins b ! nat ibin @ bins other_bin ! nat other_ibin]\<rparr>)
      else Inl IndexError)"

text \<open>
  Modelled from the spec: \<open>sort(partition)\<close>, the missing method \<open>Bins.sort\<close>: reorders the
  bins into ascending order of sum, stably, each bin's contents moving with its sum.
\<close>

definition sort_bins :: "'a partition \<Rightarrow> 'a partition" where
  "sort_bins b =
     (let sorted_pairs = sort_key fst (zip (sums b) (bins b))
      in b\<lparr>sums := map fst sorted_pairs, bins := map snd sorted_pairs\<rparr>)"

section \<open>The priority structure\<close>

text \<open>
  A heap entry is the tuple \<open>(key, sequence number, partition, sums)\<close> that kk.py pushes.
\<close>

type_synonym 'a entry = "int \<times> nat \<times> 'a partition \<times> int list"

definition ekey :: "'a entry \<Rightarrow> int" where
  "ekey e = fst e"

definition eseq :: "'a entry \<Rightarrow> nat" where
  "eseq e = fst (snd e)"

definition epart :: "'a entry \<Rightarrow> 'a partition" where
  "epart e = fst (snd (snd e))"

definition esnap :: "'a entry \<Rightarrow> int list" where
  "esnap e = snd (snd (snd e))"

text \<open>
  Python compares tuples component by component: the first component on which the two
  differ decides. \<open>decided_at\<close> is the index of that component for two heap entries: 0 the
  key, 1 the sequence number, and 2 when both agree, where the comparison would go on to
  the partition objects.
\<close>

definition decided_at :: "'a entry \<Rightarrow> 'a entry \<Rightarrow> nat" where
  "decided_at a b =
     (if ekey a \<noteq> ekey b then 0 else if eseq a \<noteq> eseq b then 1 else 2)"

text \<open>
  \<open>a < b\<close> on heap entries. The class of the partitions defines no ordering, so a
  comparison that reaches the third component raises \<open>TypeError\<close>.
\<close>

definition entry_lt :: "'a entry \<Rightarrow> 'a entry \<Rightarrow> error + bool" where
  "entry_lt a b =
     (if ekey a \<noteq> ekey b then Inr (ekey a < ekey b)
      else if eseq a \<noteq> eseq b then Inr (eseq a < eseq b)
      else Inl TypeError)"

text \<open>
  The library module \<open>heapq\<close> keeps a list in which the least tuple is at index 0;
  \<open>heappop\<close> removes and returns the least tuple and fails on an empty list. The model
  keeps the list ascending under the tuple order: \<open>heappush\<close> places the new entry before
  the first entry it is less than, \<open>heappop\<close> takes the head.
\<close>

fun heappush :: "'a entry list \<Rightarrow> 'a entry \<Rightarrow> error + 'a entry list" where
  "heappush [] e = Inr [e]"
| "heappush (x # xs) e =
     ebind (entry_lt e x)
       (\<lambda>less. if less then Inr (e # x # xs)
               else ebind (heappush xs e) (\<lambda>ys. Inr (x # ys)))"

fun heappop :: "'a entry list \<Rightarrow> error + ('a entry \<times> 'a entry list)" where
  "heappop [] = Inl IndexError"
| "heappop (x # xs) = Inr (x, xs)"

text \<open>\<open>partitions[0]\<close>: the entry at index 0, \<open>IndexError\<close> on the empty list.\<close>

fun first_entry :: "'a entry list \<Rightarrow> error + 'a entry" where
  "first_entry [] = Inl IndexError"
| "first_entry (x # xs) = Inr x"

section \<open>The algorithm kk\<close>

text \<open>
  The state of the run: the list \<open>partitions\<close> and the next value of \<open>heap_count\<close>.
\<close>

type_synonym 'a kk_state = "'a entry list \<times> nat"

text \<open>
  Lines 17 to 21: one entry per item, in the order of \<open>items\<close>; the item goes into bin
  \<open>bins.num - 1\<close> of a copy of \<open>bins\<close>, the key is the negated value.
\<close>

fun seed :: "'a partition \<Rightarrow> ('a \<Rightarrow> int) \<Rightarrow> 'a list \<Rightarrow> 'a kk_state \<Rightarrow> error + 'a kk_state" where
  "seed b valueof [] st = Inr st"
| "seed b valueof (item # items) st =
     ebind (add_item_to_bin valueof b item (int (num b) - 1))
       (\<lambda>new_bin. ebind (heappush (fst st) (- valueof item, snd st, new_bin, sums new_bin))
          (\<lambda>h. seed b valueof items (h, Suc (snd st))))"

text \<open>
  Lines 27 and 28: \<open>for i in range(bins.num)\<close>, bin \<open>i\<close> of \<open>bin2\<close> is combined into bin
  \<open>bins.num - i - 1\<close> of \<open>bin1\<close>. The list argument is the remaining range.
\<close>

fun combine_loop :: "nat \<Rightarrow> nat list \<Rightarrow> 'a partition \<Rightarrow> 'a partition \<Rightarrow> error + 'a partition" where
  "combine_loop K [] bin1 bin2 = Inr bin1"
| "combine_loop K (i # is) bin1 bin2 =
     ebind (combine_bins bin1 (int K - int i - 1) bin2 (int i))
       (\<lambda>bin1'. combine_loop K is bin1' bin2)"

text \<open>Line 33: \<open>max(bin1.sums) - min(bin1.sums)\<close>; both fail on an empty sequence.\<close>

definition spread :: "int list \<Rightarrow> error + int" where
  "spread xs = (if xs = [] then Inl ValueError else Inr (Max (set xs) - Min (set xs)))"

text \<open>
  Lines 27 to 30: the merge of \<open>bin2\<close> into \<open>bin1\<close>, the combine loop over
  \<open>range(bins.num)\<close> followed by \<open>bin1.sort()\<close>.
\<close>

definition merge :: "nat \<Rightarrow> 'a partition \<Rightarrow> 'a partition \<Rightarrow> error + 'a partition" where
  "merge K bin1 bin2 = ebind (combine_loop K [0..<K] bin1 bin2) (\<lambda>m. Inr (sort_bins m))"

text \<open>Lines 24 to 35: one iteration of the merge loop.\<close>

definition kk_step :: "'a partition \<Rightarrow> 'a kk_state \<Rightarrow> error + 'a kk_state" where
  "kk_step b st =
     ebind (heappop (fst st)) (\<lambda>p1.
     ebind (heappop (snd p1)) (\<lambda>p2.
     ebind (merge (num b) (epart (fst p1)) (epart (fst p2))) (\<lambda>bin1.
     ebind (spread (sums bin1)) (\<lambda>diff.
     ebind (heappush (snd p2) (- diff, snd st, bin1, sums bin1)) (\<lambda>h.
     Inr (h, Suc (snd st)))))))"

text \<open>Line 23: \<open>for k in range(len(items) - 1)\<close>; the first argument counts the iterations left.\<close>

fun kk_loop :: "'a partition \<Rightarrow> nat \<Rightarrow> 'a kk_state \<Rightarrow> error + 'a kk_state" where
  "kk_loop b 0 st = Inr st"
| "kk_loop b (Suc k) st = ebind (kk_step b st) (kk_loop b k)"

text \<open>
  The whole function: seeding, \<open>len(items) - 1\<close> iterations (none when the list is empty,
  as \<open>range(-1)\<close> is empty), then the partition of \<open>partitions[0]\<close>.
\<close>

definition kk :: "'a partition \<Rightarrow> 'a list \<Rightarrow> ('a \<Rightarrow> int) \<Rightarrow> error + 'a partition" where
  "kk b items valueof =
     ebind (seed b valueof items ([], 0)) (\<lambda>st.
     ebind (kk_loop b (length items - 1) st) (\<lambda>st'.
     ebind (first_entry (fst st')) (\<lambda>e. Inr (epart e))))"

text \<open>
  The entry point of the specification, \<open>solve(numBins, items, valueOf)\<close>: what
  \<open>partition\<close> in adaptors.py does for a list of items (lines 79 and 80), empty bins
  created for \<open>numbins\<close> and handed to the algorithm.
\<close>

definition solve :: "int \<Rightarrow> 'a list \<Rightarrow> ('a \<Rightarrow> int) \<Rightarrow> error + 'a partition" where
  "solve numBins items valueof = ebind (create_empty numBins) (\<lambda>b. kk b items valueof)"

text \<open>The state after seeding and \<open>j\<close> iterations of the merge loop.\<close>

definition state_after :: "int \<Rightarrow> 'a list \<Rightarrow> ('a \<Rightarrow> int) \<Rightarrow> nat \<Rightarrow> error + 'a kk_state" where
  "state_after numBins items valueof j =
     ebind (create_empty numBins) (\<lambda>b.
     ebind (seed b valueof items ([], 0)) (kk_loop b j))"

section \<open>Properties of partitions and of the priority structure\<close>

text \<open>A partition of exactly \<open>K\<close> bins, sums and contents index-aligned.\<close>

definition wf_part :: "nat \<Rightarrow> 'a partition \<Rightarrow> bool" where
  "wf_part K p \<longleftrightarrow> num p = K \<and> length (sums p) = K \<and> length (bins p) = K"

text \<open>The sum of the values of the items of one bin.\<close>

definition bin_sum :: "('a \<Rightarrow> int) \<Rightarrow> 'a list \<Rightarrow> int" where
  "bin_sum valueof xs = sum_list (map valueof xs)"

text \<open>Every cached sum is the sum of the values of the bin's items.\<close>

definition sums_consistent :: "('a \<Rightarrow> int) \<Rightarrow> 'a partition \<Rightarrow> bool" where
  "sums_consistent valueof p \<longleftrightarrow> sums p = map (bin_sum valueof) (bins p)"

text \<open>The multiset of the items of all bins of a partition, and of all partitions of a heap.\<close>

definition items_of :: "'a partition \<Rightarrow> 'a multiset" where
  "items_of p = mset (concat (bins p))"

definition heap_items :: "'a entry list \<Rightarrow> 'a multiset" where
  "heap_items h = sum_list (map (\<lambda>e. items_of (epart e)) h)"

text \<open>The lexicographic order on (key, sequence number).\<close>

definition entry_before :: "'a entry \<Rightarrow> 'a entry \<Rightarrow> bool" where
  "entry_before a b \<longleftrightarrow> ekey a < ekey b \<or> (ekey a = ekey b \<and> eseq a < eseq b)"

text \<open>
  What holds of the state at the head of every iteration: the list ascends under the
  lexicographic order, every sequence number is below the counter, every partition has
  \<open>K\<close> bins with consistent sums, and the fourth component is the partition's sums.
\<close>

definition heap_inv :: "nat \<Rightarrow> ('a \<Rightarrow> int) \<Rightarrow> 'a kk_state \<Rightarrow> bool" where
  "heap_inv K valueof st \<longleftrightarrow>
     sorted_wrt entry_before (fst st) \<and>
     (\<forall>e \<in> set (fst st). eseq e < snd st \<and> wf_part K (epart e)
         \<and> sums_consistent valueof (epart e) \<and> esnap e = sums (epart e))"

text \<open>
  The seeding rule in the specification's words (section 4.3, step 1): the item alone in
  the last bin, all other bins empty, keyed by the negated value; \<open>i\<close> is the position of
  the item in the input.
\<close>

definition spec_one_item_partition :: "nat \<Rightarrow> ('a \<Rightarrow> int) \<Rightarrow> 'a \<Rightarrow> 'a partition" where
  "spec_one_item_partition K valueof x =
     \<lparr>num = K, sums = replicate (K - 1) 0 @ [valueof x], bins = replicate (K - 1) [] @ [[x]]\<rparr>"

definition spec_seed_entry :: "nat \<Rightarrow> ('a \<Rightarrow> int) \<Rightarrow> 'a list \<Rightarrow> nat \<Rightarrow> 'a entry" where
  "spec_seed_entry K valueof items i =
     (- valueof (items ! i), i, spec_one_item_partition K valueof (items ! i),
      sums (spec_one_item_partition K valueof (items ! i)))"

text \<open>
  The sequence numbers of the entries are pairwise different and all below the counter.
\<close>

definition seq_inv :: "'a kk_state \<Rightarrow> bool" where
  "seq_inv st \<longleftrightarrow> distinct (map eseq (fst st)) \<and> (\<forall>e \<in> set (fst st). eseq e < snd st)"

section \<open>Auxiliary lemmas\<close>

lemma ebind_Inr_iff: "ebind m f = Inr y \<longleftrightarrow> (\<exists>x. m = Inr x \<and> f x = Inr y)"
  by (cases m) auto

lemma entry_before_trans: "entry_before a b \<Longrightarrow> entry_before b c \<Longrightarrow> entry_before a c"
  by (auto simp: entry_before_def)

lemma entry_lt_distinct:
  "eseq a \<noteq> eseq b \<Longrightarrow> entry_lt a b = Inr (entry_before a b)"
  by (auto simp: entry_lt_def entry_before_def)

lemma entry_before_total:
  "eseq a \<noteq> eseq b \<Longrightarrow> \<not> entry_before a b \<Longrightarrow> entry_before b a"
  by (auto simp: entry_before_def)

lemma heappush_ok:
  assumes "sorted_wrt entry_before h" and "\<forall>x \<in> set h. eseq x \<noteq> eseq e"
  shows "\<exists>h'. heappush h e = Inr h' \<and> mset h' = add_mset e (mset h) \<and> sorted_wrt entry_before h'"
  using assms
proof (induction h)
  case Nil
  then show ?case by simp
next
  case (Cons x xs)
  have d: "eseq e \<noteq> eseq x" using Cons.prems by auto
  show ?case
  proof (cases "entry_before e x")
    case True
    have "\<forall>y \<in> set xs. entry_before e y"
      using Cons.prems(1) True entry_before_trans by fastforce
    then show ?thesis using True d Cons.prems(1) by (simp add: entry_lt_distinct)
  next
    case False
    obtain ys where ys: "heappush xs e = Inr ys" "mset ys = add_mset e (mset xs)"
      "sorted_wrt entry_before ys"
      using Cons by auto
    have "set ys = insert e (set xs)" using ys(2) by (metis set_mset_add_mset_insert set_mset_mset)
    moreover have "entry_before x e" using False d entry_before_total by metis
    ultimately have "sorted_wrt entry_before (x # ys)" using ys(3) Cons.prems(1) by auto
    then show ?thesis using False d ys by (simp add: entry_lt_distinct)
  qed
qed

lemma combine_bins_wf:
  assumes "wf_part K p1" "wf_part K p2" "i < K"
  shows "combine_bins p1 (int K - int i - 1) p2 (int i) =
           Inr (p1\<lparr>sums := (sums p1)[K - 1 - i := sums p1 ! (K - 1 - i) + sums p2 ! i],
                   bins := (bins p1)[K - 1 - i := bins p1 ! (K - 1 - i) @ bins p2 ! i]\<rparr>)"
proof -
  have n: "nat (int K - int i - 1) = K - 1 - i" using assms(3) by simp
  have r: "0 \<le> int K - int i - 1" "int K - int i - 1 < int K" using assms(3) by simp_all
  show ?thesis
    unfolding combine_bins_def n using assms r by (simp add: wf_part_def)
qed

lemma combine_loop_ok:
  assumes "wf_part K p2" "distinct js" "\<forall>i \<in> set js. i < K" "wf_part K p1"
  shows "\<exists>m. combine_loop K js p1 p2 = Inr m \<and> wf_part K m \<and>
           (\<forall>d < K. bins m ! d =
              (if K - 1 - d \<in> set js then bins p1 ! d @ bins p2 ! (K - 1 - d) else bins p1 ! d)) \<and>
           (\<forall>d < K. sums m ! d =
              (if K - 1 - d \<in> set js then sums p1 ! d + sums p2 ! (K - 1 - d) else sums p1 ! d))"
  using assms(2,3,4)
proof (induction js arbitrary: p1)
  case Nil
  then show ?case by simp
next
  case (Cons i js)
  define q where "q = p1\<lparr>sums := (sums p1)[K - 1 - i := sums p1 ! (K - 1 - i) + sums p2 ! i],
                   bins := (bins p1)[K - 1 - i := bins p1 ! (K - 1 - i) @ bins p2 ! i]\<rparr>"
  have iK: "i < K" using Cons.prems by simp
  have step: "combine_bins p1 (int K - int i - 1) p2 (int i) = Inr q"
    unfolding q_def using combine_bins_wf [OF Cons.prems(3) assms(1) iK] .
  have wfq: "wf_part K q" using Cons.prems(3) by (simp add: q_def wf_part_def)
  have "distinct js" "\<forall>i \<in> set js. i < K" using Cons.prems by simp_all
  from Cons.IH [OF this wfq] obtain m where m: "combine_loop K js q p2 = Inr m" "wf_part K m"
    "\<forall>d < K. bins m ! d =
        (if K - 1 - d \<in> set js then bins q ! d @ bins p2 ! (K - 1 - d) else bins q ! d)"
    "\<forall>d < K. sums m ! d =
        (if K - 1 - d \<in> set js then sums q ! d + sums p2 ! (K - 1 - d) else sums q ! d)"
    by blast
  have inot: "i \<notin> set js" using Cons.prems by simp
  have lens: "length (bins p1) = K" "length (sums p1) = K"
    using Cons.prems(3) by (simp_all add: wf_part_def)
  have qb: "\<And>d. d < K \<Longrightarrow> bins q ! d =
       (if d = K - 1 - i then bins p1 ! d @ bins p2 ! i else bins p1 ! d)"
    using lens by (simp add: q_def nth_list_update)
  have qs: "\<And>d. d < K \<Longrightarrow> sums q ! d =
       (if d = K - 1 - i then sums p1 ! d + sums p2 ! i else sums p1 ! d)"
    using lens by (simp add: q_def nth_list_update)
  have eqv: "\<And>d. d < K \<Longrightarrow> (d = K - 1 - i) = (K - 1 - d = i)" using iK by auto
  have b: "\<forall>d < K. bins m ! d =
        (if K - 1 - d \<in> set (i # js) then bins p1 ! d @ bins p2 ! (K - 1 - d) else bins p1 ! d)"
  proof (intro allI impI)
    fix d assume d: "d < K"
    show "bins m ! d =
        (if K - 1 - d \<in> set (i # js) then bins p1 ! d @ bins p2 ! (K - 1 - d) else bins p1 ! d)"
      using m(3) d qb [OF d] eqv [OF d] inot by auto
  qed
  have s: "\<forall>d < K. sums m ! d =
        (if K - 1 - d \<in> set (i # js) then sums p1 ! d + sums p2 ! (K - 1 - d) else sums p1 ! d)"
  proof (intro allI impI)
    fix d assume d: "d < K"
    show "sums m ! d =
        (if K - 1 - d \<in> set (i # js) then sums p1 ! d + sums p2 ! (K - 1 - d) else sums p1 ! d)"
      using m(4) d qs [OF d] eqv [OF d] inot by auto
  qed
  show ?case using step m(1,2) b s by simp
qed

lemma combine_all:
  assumes "wf_part K p1" "wf_part K p2"
  shows "\<exists>m. combine_loop K [0..<K] p1 p2 = Inr m \<and> wf_part K m \<and>
           (\<forall>d < K. bins m ! d = bins p1 ! d @ bins p2 ! (K - 1 - d)) \<and>
           (\<forall>d < K. sums m ! d = sums p1 ! d + sums p2 ! (K - 1 - d))"
proof -
  have "distinct [0..<K]" "\<forall>i \<in> set [0..<K]. i < K" by simp_all
  from combine_loop_ok [OF assms(2) this assms(1)] obtain m where
    m: "combine_loop K [0..<K] p1 p2 = Inr m" "wf_part K m"
    "\<forall>d < K. bins m ! d =
       (if K - 1 - d \<in> set [0..<K] then bins p1 ! d @ bins p2 ! (K - 1 - d) else bins p1 ! d)"
    "\<forall>d < K. sums m ! d =
       (if K - 1 - d \<in> set [0..<K] then sums p1 ! d + sums p2 ! (K - 1 - d) else sums p1 ! d)"
    by blast
  have "\<And>d. d < K \<Longrightarrow> K - 1 - d \<in> set [0..<K]" by auto
  then show ?thesis using m by auto
qed

lemma mset_concat_zip_append:
  "length xs = length ys \<Longrightarrow>
     mset (concat (map (\<lambda>(x, y). x @ y) (zip xs ys))) = mset (concat xs) + mset (concat ys)"
  by (induction xs ys rule: list_induct2) auto

lemma mset_concat_rev: "mset (concat (rev xs)) = mset (concat xs)"
  by (induction xs) auto

lemma combined_items:
  assumes "wf_part K p1" "wf_part K p2" "wf_part K m"
    "\<forall>d < K. bins m ! d = bins p1 ! d @ bins p2 ! (K - 1 - d)"
  shows "items_of m = items_of p1 + items_of p2"
proof -
  have "bins m = map (\<lambda>(x, y). x @ y) (zip (bins p1) (rev (bins p2)))"
    using assms by (auto simp: wf_part_def list_eq_iff_nth_eq rev_nth)
  moreover have "length (bins p1) = length (rev (bins p2))" using assms by (simp add: wf_part_def)
  ultimately show ?thesis
    by (simp add: items_of_def mset_concat_zip_append mset_concat_rev)
qed

lemma combined_consistent:
  assumes "wf_part K p1" "wf_part K p2" "wf_part K m"
    "\<forall>d < K. bins m ! d = bins p1 ! d @ bins p2 ! (K - 1 - d)"
    "\<forall>d < K. sums m ! d = sums p1 ! d + sums p2 ! (K - 1 - d)"
    "sums_consistent v p1" "sums_consistent v p2"
  shows "sums_consistent v m"
proof -
  have "sums m ! d = map (bin_sum v) (bins m) ! d" if d: "d < K" for d
  proof -
    have "K - 1 - d < K" using d by simp
    then have "sums p1 ! d = bin_sum v (bins p1 ! d)"
      "sums p2 ! (K - 1 - d) = bin_sum v (bins p2 ! (K - 1 - d))"
      using assms(1,2,6,7) d by (simp_all add: sums_consistent_def wf_part_def)
    then show ?thesis using assms(3,4,5) d by (simp add: wf_part_def bin_sum_def)
  qed
  then show ?thesis
    using assms(3) by (simp add: sums_consistent_def wf_part_def list_eq_iff_nth_eq)
qed

lemma sort_bins_wf: "wf_part K p \<Longrightarrow> wf_part K (sort_bins p)"
  by (simp add: sort_bins_def wf_part_def Let_def)

lemma sort_bins_sorted: "sorted (sums (sort_bins p))"
  by (simp add: sort_bins_def Let_def)

lemma sort_bins_items: "wf_part K p \<Longrightarrow> items_of (sort_bins p) = items_of p"
proof -
  assume wf: "wf_part K p"
  have "mset (map snd (sort_key fst (zip (sums p) (bins p)))) = mset (map snd (zip (sums p) (bins p)))"
    by simp
  also have "map snd (zip (sums p) (bins p)) = bins p" using wf by (simp add: wf_part_def)
  finally have "mset (bins (sort_bins p)) = mset (bins p)" by (simp add: sort_bins_def Let_def)
  then have "image_mset mset (mset (bins (sort_bins p))) = image_mset mset (mset (bins p))"
    by simp
  then have "sum_mset (mset (map mset (bins (sort_bins p)))) = sum_mset (mset (map mset (bins p)))"
    by simp
  then have "sum_list (map mset (bins (sort_bins p))) = sum_list (map mset (bins p))"
    unfolding sum_mset_sum_list .
  then show ?thesis unfolding items_of_def mset_concat .
qed

lemma sort_bins_consistent:
  assumes "wf_part K p" "sums_consistent v p"
  shows "sums_consistent v (sort_bins p)"
proof -
  have "\<forall>pr \<in> set (zip (sums p) (bins p)). fst pr = bin_sum v (snd pr)"
    using assms(2) by (auto simp: sums_consistent_def in_set_zip)
  then have "\<forall>pr \<in> set (sort_key fst (zip (sums p) (bins p))). fst pr = bin_sum v (snd pr)"
    by simp
  then have "map fst (sort_key fst (zip (sums p) (bins p)))
      = map (\<lambda>pr. bin_sum v (snd pr)) (sort_key fst (zip (sums p) (bins p)))"
    by (intro map_cong) simp_all
  then show ?thesis by (simp add: sums_consistent_def sort_bins_def Let_def comp_def)
qed

lemma merge_ok:
  assumes "wf_part K p1" "wf_part K p2"
  shows "\<exists>m. combine_loop K [0..<K] p1 p2 = Inr m \<and> merge K p1 p2 = Inr (sort_bins m) \<and>
           wf_part K m \<and>
           (\<forall>d < K. bins m ! d = bins p1 ! d @ bins p2 ! (K - 1 - d)) \<and>
           (\<forall>d < K. sums m ! d = sums p1 ! d + sums p2 ! (K - 1 - d))"
  using combine_all [OF assms] by (auto simp: merge_def)

lemma merge_props:
  assumes "wf_part K p1" "wf_part K p2"
  shows "\<exists>c. merge K p1 p2 = Inr c \<and> wf_part K c \<and> sorted (sums c) \<and>
           items_of c = items_of p1 + items_of p2 \<and>
           (sums_consistent v p1 \<longrightarrow> sums_consistent v p2 \<longrightarrow> sums_consistent v c)"
proof -
  from merge_ok [OF assms] obtain m where m: "merge K p1 p2 = Inr (sort_bins m)" "wf_part K m"
    "\<forall>d < K. bins m ! d = bins p1 ! d @ bins p2 ! (K - 1 - d)"
    "\<forall>d < K. sums m ! d = sums p1 ! d + sums p2 ! (K - 1 - d)"
    by blast
  have "items_of (sort_bins m) = items_of p1 + items_of p2"
    using sort_bins_items [OF m(2)] combined_items [OF assms m(2,3)] by simp
  moreover have "sums_consistent v (sort_bins m)"
    if "sums_consistent v p1" "sums_consistent v p2"
    using sort_bins_consistent [OF m(2)] combined_consistent [OF assms m(2,3,4) that] by simp
  ultimately show ?thesis using m(1) sort_bins_wf [OF m(2)] sort_bins_sorted by blast
qed

lemma spread_ok: "xs \<noteq> [] \<Longrightarrow> spread xs = Inr (Max (set xs) - Min (set xs))"
  by (simp add: spread_def)

lemma heappush_state:
  assumes "heap_inv K v (h, c)" "wf_part K p" "sums_consistent v p"
  shows "\<exists>h'. heappush h (k, c, p, sums p) = Inr h' \<and> mset h' = add_mset (k, c, p, sums p) (mset h)
           \<and> heap_inv K v (h', Suc c)"
proof -
  have s: "sorted_wrt entry_before h" using assms(1) by (simp add: heap_inv_def)
  have d: "\<forall>x \<in> set h. eseq x \<noteq> eseq (k, c, p, sums p)"
    using assms(1) by (auto simp: heap_inv_def eseq_def)
  from heappush_ok [OF s d] obtain h' where h': "heappush h (k, c, p, sums p) = Inr h'"
    "mset h' = add_mset (k, c, p, sums p) (mset h)" "sorted_wrt entry_before h'"
    by blast
  have "set h' = insert (k, c, p, sums p) (set h)"
    using h'(2) by (metis set_mset_add_mset_insert set_mset_mset)
  then have "heap_inv K v (h', Suc c)"
    using assms h'(3) by (auto simp: heap_inv_def eseq_def epart_def esnap_def less_Suc_eq)
  then show ?thesis using h' by blast
qed

lemma heap_items_mset:
  assumes "mset h = mset h'"
  shows "heap_items h = heap_items h'"
proof -
  have "sum_mset (mset (map (\<lambda>e. items_of (epart e)) h))
      = sum_mset (mset (map (\<lambda>e. items_of (epart e)) h'))"
    using assms by simp
  then show ?thesis unfolding heap_items_def sum_mset_sum_list .
qed

lemma heap_items_Cons: "heap_items (e # h) = items_of (epart e) + heap_items h"
  by (simp add: heap_items_def)

lemma heap_inv_tl: "heap_inv K v (e # h, c) \<Longrightarrow> heap_inv K v (h, c)"
  by (simp add: heap_inv_def)

lemma ebind_assoc: "ebind (ebind m f) g = ebind m (\<lambda>x. ebind (f x) g)"
  by (cases m) simp_all

lemma replicate_update_last:
  "0 < K \<Longrightarrow> (replicate K a)[K - 1 := y] = replicate (K - 1) a @ [y]"
proof -
  assume "0 < K"
  then obtain k where k: "K = Suc k" by (cases K) auto
  have r: "replicate (Suc k) a = replicate k a @ [a]" by (simp add: replicate_append_same)
  have "(replicate k a @ [a])[length (replicate k a) := y] = replicate k a @ [y]"
    by (rule list_update_length)
  then show ?thesis unfolding k r by simp
qed

lemma create_empty_ok:
  "1 \<le> numBins \<Longrightarrow> create_empty numBins =
     Inr \<lparr>num = nat numBins, sums = replicate (nat numBins) 0, bins = replicate (nat numBins) []\<rparr>"
  by (simp add: create_empty_def)

lemma add_item_last:
  fixes v :: "'a \<Rightarrow> int"
  assumes "0 < K" "b = \<lparr>num = K, sums = replicate K 0, bins = replicate K []\<rparr>"
  shows "add_item_to_bin v b x (int (num b) - 1) = Inr (spec_one_item_partition K v x)"
proof -
  have n: "nat (int K - 1) = K - 1" by simp
  have "(replicate K (0::int))[K - 1 := v x] = replicate (K - 1) 0 @ [v x]"
    "(replicate K ([]::'a list))[K - 1 := [x]] = replicate (K - 1) [] @ [[x]]"
    by (rule replicate_update_last [OF assms(1)])+
  then show ?thesis
    using assms by (simp add: add_item_to_bin_def spec_one_item_partition_def n)
qed

lemma one_item_props:
  assumes "0 < K"
  shows "wf_part K (spec_one_item_partition K v x)"
    and "sums_consistent v (spec_one_item_partition K v x)"
    and "items_of (spec_one_item_partition K v x) = {#x#}"
    and "0 \<le> v x \<Longrightarrow> sorted (sums (spec_one_item_partition K v x))"
  using assms
  by (auto simp: wf_part_def sums_consistent_def items_of_def spec_one_item_partition_def
      bin_sum_def sorted_append)

lemma seed_ok:
  fixes v :: "'a \<Rightarrow> int"
  assumes "0 < K" "b = \<lparr>num = K, sums = replicate K 0, bins = replicate K []\<rparr>"
    "heap_inv K v (h, c)"
  shows "\<exists>h'. seed b v items (h, c) = Inr (h', c + length items)
           \<and> heap_inv K v (h', c + length items)
           \<and> mset h' = mset h + mset (map (\<lambda>(x, i). (- v x, i, spec_one_item_partition K v x,
                  sums (spec_one_item_partition K v x))) (zip items [c..<c + length items]))"
  using assms(3)
proof (induction items arbitrary: h c)
  case Nil
  then show ?case by simp
next
  case (Cons x xs)
  let ?p = "spec_one_item_partition K v x"
  let ?f = "\<lambda>(x, i). (- v x, i, spec_one_item_partition K v x,
                  sums (spec_one_item_partition K v x))"
  from heappush_state [OF Cons.prems one_item_props(1,2) [OF assms(1)]]
  obtain h1 where h1: "heappush h (- v x, c, ?p, sums ?p) = Inr h1"
    "mset h1 = add_mset (- v x, c, ?p, sums ?p) (mset h)" "heap_inv K v (h1, Suc c)"
    by blast
  from Cons.IH [OF h1(3)] obtain h' where h':
    "seed b v xs (h1, Suc c) = Inr (h', Suc c + length xs)"
    "heap_inv K v (h', Suc c + length xs)"
    "mset h' = mset h1 + mset (map ?f (zip xs [Suc c..<Suc c + length xs]))"
    by blast
  have u: "[c..<Suc c + length xs] = c # [Suc c..<Suc c + length xs]"
    by (rule upt_conv_Cons) simp
  have e: "c + length (x # xs) = Suc c + length xs" by simp
  have run: "seed b v (x # xs) (h, c) = Inr (h', Suc c + length xs)"
    using h1(1) h'(1) add_item_last [OF assms(1,2), of v x] by simp
  have ms: "mset h' = mset h + mset (map ?f (zip (x # xs) (c # [Suc c..<Suc c + length xs])))"
    unfolding h'(3) h1(2) by simp
  show ?case unfolding e u
  proof (intro exI conjI)
    show "seed b v (x # xs) (h, c) = Inr (h', Suc c + length xs)" by (rule run)
    show "heap_inv K v (h', Suc c + length xs)" by (rule h'(2))
    show "mset h' = mset h + mset (map ?f (zip (x # xs) (c # [Suc c..<Suc c + length xs])))"
      by (rule ms)
  qed
qed

lemma kk_step_ok:
  assumes "heap_inv K v (e1 # e2 # rest, c)" "num b = K" "0 < K"
  shows "\<exists>m h'. merge K (epart e1) (epart e2) = Inr m \<and> wf_part K m \<and> sorted (sums m)
           \<and> sums_consistent v m \<and> items_of m = items_of (epart e1) + items_of (epart e2)
           \<and> heappush rest (- (Max (set (sums m)) - Min (set (sums m))), c, m, sums m) = Inr h'
           \<and> mset h' = add_mset (- (Max (set (sums m)) - Min (set (sums m))), c, m, sums m) (mset rest)
           \<and> kk_step b (e1 # e2 # rest, c) = Inr (h', Suc c) \<and> heap_inv K v (h', Suc c)"
proof -
  have p: "wf_part K (epart e1)" "wf_part K (epart e2)"
    "sums_consistent v (epart e1)" "sums_consistent v (epart e2)"
    using assms(1) by (simp_all add: heap_inv_def)
  from merge_props [OF p(1,2), of v] p(3,4) obtain m where m: "merge K (epart e1) (epart e2) = Inr m"
    "wf_part K m" "sorted (sums m)" "items_of m = items_of (epart e1) + items_of (epart e2)"
    "sums_consistent v m"
    by blast
  have ne: "sums m \<noteq> []" using m(2) assms(3) by (auto simp: wf_part_def)
  have r: "heap_inv K v (rest, c)" using assms(1) heap_inv_tl by blast
  let ?d = "Max (set (sums m)) - Min (set (sums m))"
  from heappush_state [OF r m(2) m(5), of "- ?d"] obtain h' where
    h': "heappush rest (- ?d, c, m, sums m) = Inr h'"
    "mset h' = add_mset (- ?d, c, m, sums m) (mset rest)" "heap_inv K v (h', Suc c)"
    by blast
  have "kk_step b (e1 # e2 # rest, c) = Inr (h', Suc c)"
    using h'(1) by (simp add: kk_step_def assms(2) m(1) spread_ok [OF ne])
  then show ?thesis using m h' by blast
qed

lemma kk_step_short: "length h < 2 \<Longrightarrow> kk_step b (h, c) = Inl IndexError"
proof (cases h)
  case Nil
  then show ?thesis by (simp add: kk_step_def)
next
  case (Cons x xs)
  assume "length h < 2"
  then have "xs = []" using Cons by simp
  then show ?thesis using Cons by (simp add: kk_step_def)
qed

lemma kk_loop_snoc: "kk_loop b (Suc j) st = ebind (kk_loop b j st) (kk_step b)"
proof (induction j arbitrary: st)
  case 0
  then show ?case by (cases "kk_step b st") simp_all
next
  case (Suc j)
  have "kk_loop b (Suc (Suc j)) st = ebind (kk_step b st) (kk_loop b (Suc j))" by simp
  also have "\<dots> = ebind (kk_step b st) (\<lambda>s. ebind (kk_loop b j s) (kk_step b))"
    by (cases "kk_step b st") (simp_all only: ebind.simps Suc.IH)
  also have "\<dots> = ebind (ebind (kk_step b st) (kk_loop b j)) (kk_step b)"
    by (simp add: ebind_assoc)
  finally show ?case by simp
qed

lemma kk_loop_ok:
  assumes "num b = K" "0 < K"
  shows "heap_inv K v (h, c) \<Longrightarrow> j < length h \<Longrightarrow>
     \<exists>h'. kk_loop b j (h, c) = Inr (h', c + j) \<and> heap_inv K v (h', c + j)
        \<and> length h' = length h - j \<and> heap_items h' = heap_items h
        \<and> ((\<forall>e \<in> set h. sorted (sums (epart e))) \<longrightarrow> (\<forall>e \<in> set h'. sorted (sums (epart e))))"
proof (induction j arbitrary: h c)
  case 0
  then show ?case by simp
next
  case (Suc j)
  then obtain e1 e2 rest where h: "h = e1 # e2 # rest"
    by (cases h; cases "tl h") auto
  from kk_step_ok [OF Suc.prems(1) [unfolded h] assms] obtain m h1 where
    s: "wf_part K m" "sorted (sums m)" "items_of m = items_of (epart e1) + items_of (epart e2)"
    "mset h1 = add_mset (- (Max (set (sums m)) - Min (set (sums m))), c, m, sums m) (mset rest)"
    "kk_step b (e1 # e2 # rest, c) = Inr (h1, Suc c)" "heap_inv K v (h1, Suc c)"
    by blast
  have len: "length h1 = Suc (length rest)" using s(4) by (metis size_mset size_add_mset)
  have items: "heap_items h1 = heap_items h"
    using heap_items_mset [of h1 "(- (Max (set (sums m)) - Min (set (sums m))), c, m, sums m) # rest"]
      s(3,4) by (simp add: heap_items_Cons h epart_def)
  have seth: "set h1 = insert (- (Max (set (sums m)) - Min (set (sums m))), c, m, sums m) (set rest)"
    using s(4) by (metis set_mset_add_mset_insert set_mset_mset)
  have srt: "(\<forall>e \<in> set h. sorted (sums (epart e))) \<longrightarrow> (\<forall>e \<in> set h1. sorted (sums (epart e)))"
    using s(2) by (auto simp: seth h epart_def)
  have "j < length h1" using Suc.prems(2) len h by simp
  from Suc.IH [OF s(6) this] obtain h' where h': "kk_loop b j (h1, Suc c) = Inr (h', Suc c + j)"
    "heap_inv K v (h', Suc c + j)" "length h' = length h1 - j" "heap_items h' = heap_items h1"
    "(\<forall>e \<in> set h1. sorted (sums (epart e))) \<longrightarrow> (\<forall>e \<in> set h'. sorted (sums (epart e)))"
    by blast
  show ?case
  proof (intro exI conjI)
    show "kk_loop b (Suc j) (h, c) = Inr (h', c + Suc j)" using s(5) h'(1) h by simp
    show "heap_inv K v (h', c + Suc j)" using h'(2) by simp
    show "length h' = length h - Suc j" using h'(3) len h by simp
    show "heap_items h' = heap_items h" using h'(4) items by simp
    show "(\<forall>e \<in> set h. sorted (sums (epart e))) \<longrightarrow> (\<forall>e \<in> set h'. sorted (sums (epart e)))"
      using srt h'(5) by blast
  qed
qed

lemma heap_inv_empty: "heap_inv K v ([], 0)"
  by (simp add: heap_inv_def)

lemma zip_upt_nth: "zip xs [0..<length xs] = map (\<lambda>i. (xs ! i, i)) [0..<length xs]"
proof (rule nth_equalityI)
  show "length (zip xs [0..<length xs]) = length (map (\<lambda>i. (xs ! i, i)) [0..<length xs])"
    by simp
next
  fix i assume "i < length (zip xs [0..<length xs])"
  then have "i < length xs" by simp
  then show "zip xs [0..<length xs] ! i = map (\<lambda>i. (xs ! i, i)) [0..<length xs] ! i"
    by simp
qed

lemma seeded_entries:
  "map (\<lambda>(x, i). (- v x, i, spec_one_item_partition K v x, sums (spec_one_item_partition K v x)))
       (zip items [0..<0 + length items])
   = map (spec_seed_entry K v items) [0..<length items]"
  by (simp add: zip_upt_nth spec_seed_entry_def)

lemma heap_items_seeded:
  assumes "0 < K" "length items = length js"
  shows "heap_items (map (\<lambda>(x, i). (- v x, i, spec_one_item_partition K v x,
            sums (spec_one_item_partition K v x))) (zip items js)) = mset items"
  using assms(2)
  by (induction items js rule: list_induct2)
     (simp_all add: heap_items_def epart_def one_item_props(3) [OF assms(1)])

lemma seed_state:
  fixes v :: "'a \<Rightarrow> int"
  assumes "1 \<le> numBins"
  shows "\<exists>h. state_after numBins items v 0 = Inr (h, length items)
           \<and> heap_inv (nat numBins) v (h, length items)
           \<and> mset h = mset (map (spec_seed_entry (nat numBins) v items) [0..<length items])"
proof -
  let ?K = "nat numBins"
  let ?b = "\<lparr>num = ?K, sums = replicate ?K 0, bins = replicate ?K []\<rparr> :: 'a partition"
  have K: "0 < ?K" using assms by simp
  from seed_ok [OF K refl heap_inv_empty, of v items] obtain h where
    h: "seed ?b v items ([], 0) = Inr (h, 0 + length items)"
    "heap_inv ?K v (h, 0 + length items)"
    "mset h = mset [] + mset (map (\<lambda>(x, i). (- v x, i, spec_one_item_partition ?K v x,
                  sums (spec_one_item_partition ?K v x))) (zip items [0..<0 + length items]))"
    by blast
  have "state_after numBins items v 0 = Inr (h, length items)"
    using h(1) by (simp add: state_after_def create_empty_ok [OF assms])
  moreover have "mset h = mset (map (spec_seed_entry ?K v items) [0..<length items])"
    using h(3) unfolding seeded_entries by simp
  moreover have "heap_inv ?K v (h, length items)" using h(2) by simp
  ultimately show ?thesis by (intro exI [of _ h] conjI)
qed

lemma state_after_loop:
  "state_after numBins items v j =
     ebind (state_after numBins items v 0) (\<lambda>st. ebind (create_empty numBins) (\<lambda>b. kk_loop b j st))"
proof (cases "create_empty numBins :: error + 'a partition")
  case (Inl e)
  then show ?thesis by (simp add: state_after_def)
next
  case (Inr b)
  then show ?thesis by (cases "seed b v items ([], 0)") (simp_all add: state_after_def)
qed

lemma seeded_heap_facts:
  fixes v :: "'a \<Rightarrow> int"
  assumes "0 < K" "mset h = mset (map (spec_seed_entry K v items) [0..<length items])"
  shows "length h = length items"
    and "heap_items h = mset items"
    and "(\<forall>x \<in> set items. 0 \<le> v x) \<Longrightarrow> (\<forall>e \<in> set h. sorted (sums (epart e)))"
proof -
  let ?L = "map (spec_seed_entry K v items) [0..<length items]"
  have "length h = length ?L" using assms(2) by (rule mset_eq_length)
  then show "length h = length items" by simp
  have "heap_items h = heap_items ?L" using assms(2) by (rule heap_items_mset)
  also have "\<dots> = mset items"
    using heap_items_seeded [OF assms(1), of items "[0..<0 + length items]" v]
    unfolding seeded_entries by simp
  finally show "heap_items h = mset items" .
  have s: "set h = set ?L" using assms(2) by (rule mset_eq_setD)
  show "\<forall>e \<in> set h. sorted (sums (epart e))" if nn: "\<forall>x \<in> set items. 0 \<le> v x"
  proof
    fix e assume "e \<in> set h"
    then obtain i where i: "i < length items" "e = spec_seed_entry K v items i"
      unfolding s by auto
    have "0 \<le> v (items ! i)" using nn i(1) by simp
    then show "sorted (sums (epart e))"
      unfolding i(2) using one_item_props(4) [OF assms(1)]
      by (simp add: spec_seed_entry_def epart_def)
  qed
qed

lemma state_after_ok:
  fixes v :: "'a \<Rightarrow> int"
  assumes "1 \<le> numBins" "j < length items"
  shows "\<exists>h. state_after numBins items v j = Inr (h, length items + j)
           \<and> heap_inv (nat numBins) v (h, length items + j)
           \<and> length h = length items - j \<and> heap_items h = mset items
           \<and> ((\<forall>x \<in> set items. 0 \<le> v x) \<longrightarrow> (\<forall>e \<in> set h. sorted (sums (epart e))))"
proof -
  let ?K = "nat numBins"
  let ?b = "\<lparr>num = ?K, sums = replicate ?K 0, bins = replicate ?K []\<rparr> :: 'a partition"
  have K: "0 < ?K" using assms(1) by simp
  from seed_state [OF assms(1), of items v] obtain h0 where
    h0: "state_after numBins items v 0 = Inr (h0, length items)"
    "heap_inv ?K v (h0, length items)"
    "mset h0 = mset (map (spec_seed_entry ?K v items) [0..<length items])"
    by blast
  note f = seeded_heap_facts [OF K h0(3)]
  have nb: "num ?b = ?K" by simp
  have "j < length h0" using assms(2) f(1) by simp
  from kk_loop_ok [OF nb K h0(2) this] obtain h where
    h: "kk_loop ?b j (h0, length items) = Inr (h, length items + j)"
    "heap_inv ?K v (h, length items + j)" "length h = length h0 - j"
    "heap_items h = heap_items h0"
    "(\<forall>e \<in> set h0. sorted (sums (epart e))) \<longrightarrow> (\<forall>e \<in> set h. sorted (sums (epart e)))"
    by blast
  have run: "state_after numBins items v j = Inr (h, length items + j)"
    unfolding state_after_loop [of numBins items v j] h0(1)
    using h(1) by (simp add: create_empty_ok [OF assms(1)])
  show ?thesis
  proof (intro exI conjI)
    show "state_after numBins items v j = Inr (h, length items + j)" by (rule run)
    show "heap_inv ?K v (h, length items + j)" by (rule h(2))
    show "length h = length items - j" using h(3) f(1) by simp
    show "heap_items h = mset items" using h(4) f(2) by simp
    show "(\<forall>x \<in> set items. 0 \<le> v x) \<longrightarrow> (\<forall>e \<in> set h. sorted (sums (epart e)))"
      using h(5) f(3) by blast
  qed
qed

lemma solve_via_state:
  "solve numBins items v =
     ebind (state_after numBins items v (length items - 1))
       (\<lambda>st. ebind (first_entry (fst st)) (\<lambda>e. Inr (epart e)))"
proof (cases "create_empty numBins :: error + 'a partition")
  case (Inl e)
  then show ?thesis by (simp add: solve_def state_after_def)
next
  case (Inr b)
  then show ?thesis
    by (simp add: solve_def state_after_def kk_def ebind_assoc)
qed

lemma state_after_Suc:
  "state_after numBins items v (Suc j) =
     ebind (state_after numBins items v j)
       (\<lambda>st. ebind (create_empty numBins) (\<lambda>b. kk_step b st))"
proof (cases "create_empty numBins :: error + 'a partition")
  case (Inl e)
  then show ?thesis by (simp add: state_after_def)
next
  case (Inr b)
  show ?thesis
    unfolding state_after_def Inr ebind.simps kk_loop_snoc ebind_assoc
    by (cases "seed b v items ([], 0)") (simp_all add: ebind_assoc)
qed

lemma run_step:
  fixes v :: "'a \<Rightarrow> int"
  assumes "1 \<le> numBins" "Suc j < length items"
  shows "\<exists>e1 e2 rest m h'.
           state_after numBins items v j = Inr (e1 # e2 # rest, length items + j)
         \<and> heap_inv (nat numBins) v (e1 # e2 # rest, length items + j)
         \<and> Suc (Suc (length rest)) = length items - j
         \<and> merge (nat numBins) (epart e1) (epart e2) = Inr m
         \<and> wf_part (nat numBins) m
         \<and> heappush rest (- (Max (set (sums m)) - Min (set (sums m))), length items + j, m, sums m)
              = Inr h'
         \<and> mset h' = add_mset (- (Max (set (sums m)) - Min (set (sums m))), length items + j, m, sums m)
              (mset rest)
         \<and> state_after numBins items v (Suc j) = Inr (h', Suc (length items + j))"
proof -
  let ?K = "nat numBins"
  let ?b = "\<lparr>num = ?K, sums = replicate ?K 0, bins = replicate ?K []\<rparr> :: 'a partition"
  have K: "0 < ?K" using assms(1) by simp
  have j: "j < length items" using assms(2) by simp
  from state_after_ok [OF assms(1) j, of v] obtain h where
    h: "state_after numBins items v j = Inr (h, length items + j)"
    "heap_inv ?K v (h, length items + j)" "length h = length items - j"
    by blast
  have "2 \<le> length h" using h(3) assms(2) by simp
  then obtain e1 e2 rest where hh: "h = e1 # e2 # rest"
    by (cases h; cases "tl h") auto
  have nb: "num ?b = ?K" by simp
  from kk_step_ok [OF h(2) [unfolded hh] nb K] obtain m h' where
    s: "merge ?K (epart e1) (epart e2) = Inr m" "wf_part ?K m"
    "heappush rest (- (Max (set (sums m)) - Min (set (sums m))), length items + j, m, sums m) = Inr h'"
    "mset h' = add_mset (- (Max (set (sums m)) - Min (set (sums m))), length items + j, m, sums m)
       (mset rest)"
    "kk_step ?b (e1 # e2 # rest, length items + j) = Inr (h', Suc (length items + j))"
    by blast
  have nxt: "state_after numBins items v (Suc j) = Inr (h', Suc (length items + j))"
    unfolding state_after_Suc h(1) hh using s(5) by (simp add: create_empty_ok [OF assms(1)])
  show ?thesis
  proof (intro exI conjI)
    show "state_after numBins items v j = Inr (e1 # e2 # rest, length items + j)"
      using h(1) hh by simp
    show "heap_inv ?K v (e1 # e2 # rest, length items + j)" using h(2) hh by simp
    show "Suc (Suc (length rest)) = length items - j" using h(3) hh by simp
    show "merge ?K (epart e1) (epart e2) = Inr m" by (rule s(1))
    show "wf_part ?K m" by (rule s(2))
    show "heappush rest (- (Max (set (sums m)) - Min (set (sums m))), length items + j, m, sums m)
          = Inr h'" by (rule s(3))
    show "mset h' = add_mset (- (Max (set (sums m)) - Min (set (sums m))), length items + j, m, sums m)
       (mset rest)" by (rule s(4))
    show "state_after numBins items v (Suc j) = Inr (h', Suc (length items + j))" by (rule nxt)
  qed
qed

lemma final_state:
  fixes v :: "'a \<Rightarrow> int"
  assumes "1 \<le> numBins" "items \<noteq> []"
  shows "\<exists>e. state_after numBins items v (length items - 1) = Inr ([e], 2 * length items - 1)
           \<and> solve numBins items v = Inr (epart e)
           \<and> wf_part (nat numBins) (epart e) \<and> sums_consistent v (epart e)
           \<and> items_of (epart e) = mset items
           \<and> ((\<forall>x \<in> set items. 0 \<le> v x) \<longrightarrow> sorted (sums (epart e)))"
proof -
  have j: "length items - 1 < length items" using assms(2) by (cases items) simp_all
  from state_after_ok [OF assms(1) j, of v] obtain h where
    h: "state_after numBins items v (length items - 1) = Inr (h, length items + (length items - 1))"
    "heap_inv (nat numBins) v (h, length items + (length items - 1))"
    "length h = length items - (length items - 1)" "heap_items h = mset items"
    "(\<forall>x \<in> set items. 0 \<le> v x) \<longrightarrow> (\<forall>e \<in> set h. sorted (sums (epart e)))"
    by blast
  have "length h = 1" using h(3) j by simp
  then obtain e where e: "h = [e]" by (cases h) auto
  have c: "length items + (length items - 1) = 2 * length items - 1" using j by simp
  show ?thesis
  proof (intro exI conjI)
    show "state_after numBins items v (length items - 1) = Inr ([e], 2 * length items - 1)"
      using h(1) e c by simp
    show "solve numBins items v = Inr (epart e)"
      unfolding solve_via_state h(1) e by simp
    show "wf_part (nat numBins) (epart e)" "sums_consistent v (epart e)"
      using h(2) e by (simp_all add: heap_inv_def)
    show "items_of (epart e) = mset items" using h(4) e by (simp add: heap_items_def)
    show "(\<forall>x \<in> set items. 0 \<le> v x) \<longrightarrow> sorted (sums (epart e))" using h(5) e by simp
  qed
qed

lemma sort_bins_perm:
  assumes "wf_part K p"
  shows "mset (zip (sums (sort_bins p)) (bins (sort_bins p))) = mset (zip (sums p) (bins p))"
  by (simp add: sort_bins_def Let_def zip_map_fst_snd)

lemma heap_head_least:
  assumes "heap_inv K v (e1 # e2 # rest, c)"
  shows "\<forall>e \<in> set (e2 # rest). entry_before e1 e" and "\<forall>e \<in> set rest. entry_before e2 e"
  using assms by (auto simp: heap_inv_def)

lemma one_item_shape:
  assumes "0 < K"
  shows "bins (spec_one_item_partition K v x) ! (K - 1) = [x]"
    and "sums (spec_one_item_partition K v x) ! (K - 1) = v x"
    and "\<forall>d < K - 1. bins (spec_one_item_partition K v x) ! d = []
                    \<and> sums (spec_one_item_partition K v x) ! d = 0"
  by (simp_all add: spec_one_item_partition_def nth_append)

lemma heappush_mset: "heappush h e = Inr h' \<Longrightarrow> mset h' = add_mset e (mset h)"
proof (induction h arbitrary: h')
  case Nil
  then show ?case by auto
next
  case (Cons x xs)
  from Cons.prems obtain less where l: "entry_lt e x = Inr less"
    "(if less then Inr (e # x # xs) else ebind (heappush xs e) (\<lambda>ys. Inr (x # ys))) = Inr h'"
    by (auto simp: ebind_Inr_iff)
  show ?case
  proof (cases less)
    case True
    then show ?thesis using l(2) by auto
  next
    case False
    then obtain ys where ys: "heappush xs e = Inr ys" "h' = x # ys"
      using l(2) by (auto simp: ebind_Inr_iff)
    then show ?thesis using Cons.IH [OF ys(1)] by simp
  qed
qed

lemma seq_inv_push:
  assumes "seq_inv (h, c)" "heappush h (k, c, p, s) = Inr h'"
  shows "seq_inv (h', Suc c)"
proof -
  have m: "mset h' = mset ((k, c, p, s) # h)" using heappush_mset [OF assms(2)] by simp
  then have "mset (map eseq h') = mset (map eseq ((k, c, p, s) # h))" by (metis mset_map)
  then have "distinct (map eseq h') = distinct (map eseq ((k, c, p, s) # h))"
    by (rule mset_eq_imp_distinct_iff)
  moreover have "distinct (map eseq ((k, c, p, s) # h))"
    using assms(1) by (auto simp: seq_inv_def eseq_def)
  moreover have "set h' = set ((k, c, p, s) # h)" using m by (rule mset_eq_setD)
  ultimately show ?thesis using assms(1) by (auto simp: seq_inv_def eseq_def less_Suc_eq)
qed

lemma seq_inv_tl: "seq_inv (e # h, c) \<Longrightarrow> seq_inv (h, c)"
  by (simp add: seq_inv_def)

lemma seq_inv_seed: "seed b v items st = Inr st' \<Longrightarrow> seq_inv st \<Longrightarrow> seq_inv st'"
proof (induction items arbitrary: st)
  case Nil
  then show ?case by simp
next
  case (Cons x xs)
  from Cons.prems(1) obtain nb h where
    s: "heappush (fst st) (- v x, snd st, nb, sums nb) = Inr h"
    "seed b v xs (h, Suc (snd st)) = Inr st'"
    by (auto simp: ebind_Inr_iff)
  have "seq_inv (fst st, snd st)" using Cons.prems(2) by simp
  from Cons.IH [OF s(2) seq_inv_push [OF this s(1)]] show ?case .
qed

lemma seq_inv_step: "kk_step b st = Inr st' \<Longrightarrow> seq_inv st \<Longrightarrow> seq_inv st'"
proof -
  assume run: "kk_step b st = Inr st'" and inv: "seq_inv st"
  from run obtain p1 p2 m d h where
    s: "heappop (fst st) = Inr p1" "heappop (snd p1) = Inr p2"
    "heappush (snd p2) (- d, snd st, m, sums m) = Inr h" "st' = (h, Suc (snd st))"
    unfolding kk_step_def by (auto simp: ebind_Inr_iff)
  from s(1) obtain e1 where e1: "fst st = e1 # snd p1" by (cases "fst st") auto
  from s(2) obtain e2 where e2: "snd p1 = e2 # snd p2" by (cases "snd p1") auto
  have "seq_inv (e1 # e2 # snd p2, snd st)" using inv e1 e2 by (simp add: seq_inv_def)
  then have "seq_inv (snd p2, snd st)" using seq_inv_tl by blast
  from seq_inv_push [OF this s(3)] show ?thesis unfolding s(4) .
qed

lemma seq_inv_loop: "kk_loop b j st = Inr st' \<Longrightarrow> seq_inv st \<Longrightarrow> seq_inv st'"
proof (induction j arbitrary: st)
  case 0
  then show ?case by simp
next
  case (Suc j)
  from Suc.prems(1) obtain s1 where s1: "kk_step b st = Inr s1" "kk_loop b j s1 = Inr st'"
    by (auto simp: ebind_Inr_iff)
  from Suc.IH [OF s1(2) seq_inv_step [OF s1(1) Suc.prems(2)]] show ?case .
qed

lemma seq_inv_state: "state_after numBins items v j = Inr st \<Longrightarrow> seq_inv st"
proof -
  assume "state_after numBins items v j = Inr st"
  then obtain b s0 where s: "seed b v items ([], 0) = Inr s0" "kk_loop b j s0 = Inr st"
    unfolding state_after_def by (auto simp: ebind_Inr_iff)
  have "seq_inv ([], 0)" by (simp add: seq_inv_def)
  from seq_inv_loop [OF s(2) seq_inv_seed [OF s(1) this]] show ?thesis .
qed

lemma decided_by_seq:
  "eseq a \<noteq> eseq b \<Longrightarrow> decided_at a b \<le> 1 \<and> entry_lt a b = Inr (entry_before a b)
     \<and> (entry_before a b \<or> entry_before b a) \<and> \<not> (entry_before a b \<and> entry_before b a)"
  by (auto simp: decided_at_def entry_lt_def entry_before_def)

section \<open>The claims\<close>

text \<open>
  C1. For every call of the solver with \<open>numBins \<ge> 1\<close>, a non-empty item sequence and a
  value function that is non-negative on every item, the call returns a partition with
  exactly \<open>numBins\<close> bins, the multiset union of the items of its bins is the multiset of
  the input items (nothing lost, nothing duplicated), and the bins are in ascending order
  of sum, each cached sum being the sum of the values of the bin's items.
\<close>

theorem kk_partition_correct:
  fixes valueof :: "'a \<Rightarrow> int"
  assumes "1 \<le> numBins" "items \<noteq> []" "\<forall>x \<in> set items. 0 \<le> valueof x"
  shows "\<exists>p. solve numBins items valueof = Inr p
           \<and> num p = nat numBins \<and> length (bins p) = nat numBins \<and> length (sums p) = nat numBins
           \<and> mset (concat (bins p)) = mset items
           \<and> sums p = map (bin_sum valueof) (bins p)
           \<and> sorted (map (bin_sum valueof) (bins p))"
proof -
  from final_state [OF assms(1,2), of valueof] assms(3) obtain e where
    e: "solve numBins items valueof = Inr (epart e)" "wf_part (nat numBins) (epart e)"
    "sums_consistent valueof (epart e)" "items_of (epart e) = mset items"
    "sorted (sums (epart e))"
    by blast
  have "sorted (map (bin_sum valueof) (bins (epart e)))"
    using e(3,5) by (simp add: sums_consistent_def)
  then show ?thesis
    using e by (auto simp: wf_part_def sums_consistent_def items_of_def)
qed

theorem kk_partition_correct_witness:
  "\<exists>p. solve 3 [8, 6, 5, 7, 4 :: int] (\<lambda>x. x) = Inr p
      \<and> num p = 3 \<and> length (bins p) = 3 \<and> length (sums p) = 3
      \<and> mset (concat (bins p)) = mset [8, 6, 5, 7, 4]
      \<and> sums p = map (bin_sum (\<lambda>x. x)) (bins p)
      \<and> sorted (map (bin_sum (\<lambda>x. x)) (bins p))"
  using kk_partition_correct [of 3 "[8, 6, 5, 7, 4 :: int]" "\<lambda>x. x"] by simp

text \<open>
  C2, as amended. With \<open>numBins \<ge> 1\<close> and an empty item sequence the call fails with
  \<open>IndexError\<close>: seeding and the merge loop (of no iteration) complete, and the read of
  \<open>partitions[0]\<close> after the loop is what fails. No check precedes the loop.
\<close>

theorem empty_items_index_error:
  assumes "1 \<le> numBins"
  shows "solve numBins [] valueof = Inl IndexError
       \<and> state_after numBins [] valueof (length ([] :: 'a list) - 1) = Inr ([], 0)
       \<and> first_entry ([] :: 'a entry list) = Inl IndexError"
  using assms by (simp add: solve_def kk_def state_after_def create_empty_def)

theorem empty_items_index_error_witness:
  "solve 2 [] (\<lambda>x :: int. x) = Inl IndexError
       \<and> state_after 2 [] (\<lambda>x :: int. x) (length ([] :: int list) - 1) = Inr ([], 0)
       \<and> first_entry ([] :: int entry list) = Inl IndexError"
  by (rule empty_items_index_error [of 2]) simp

text \<open>
  The claim C2 as written has \<open>EmptyInput\<close> signalled before the loop. With two bins and
  no item the call ends in \<open>IndexError\<close>, after the loop has completed.
\<close>

theorem empty_items_counterexample:
  "solve 2 ([] :: int list) id \<noteq> Inl EmptyInput
   \<and> solve 2 ([] :: int list) id = Inl IndexError
   \<and> state_after 2 ([] :: int list) id (length ([] :: int list) - 1) = Inr ([], 0)"
  by (simp add: solve_def kk_def state_after_def create_empty_def)

text \<open>
  C3. Every merge the algorithm performs: at the head of iteration \<open>j\<close> the two entries
  popped hold two \<open>K\<close>-bin partitions \<open>A\<close> (first popped) and \<open>B\<close>; the combine loop
  yields \<open>C\<close> with \<open>C.bin[K-1-i] = A.bin[K-1-i]\<close> followed by \<open>B.bin[i]\<close>, and the sums added
  likewise, for each \<open>i\<close> in [0, K); \<open>C\<close> is then sorted ascending by sum, sums and contents
  moving together, and the sorted partition is the one pushed.
\<close>

theorem merge_pairs_largest_with_smallest:
  fixes valueof :: "'a \<Rightarrow> int"
  assumes "1 \<le> numBins" "Suc j < length items"
  shows "\<exists>e1 e2 rest c C h'.
           state_after numBins items valueof j = Inr (e1 # e2 # rest, c)
         \<and> wf_part (nat numBins) (epart e1) \<and> wf_part (nat numBins) (epart e2)
         \<and> combine_loop (nat numBins) [0..<nat numBins] (epart e1) (epart e2) = Inr C
         \<and> wf_part (nat numBins) C
         \<and> (\<forall>i < nat numBins.
               bins C ! (nat numBins - 1 - i)
                 = bins (epart e1) ! (nat numBins - 1 - i) @ bins (epart e2) ! i
             \<and> sums C ! (nat numBins - 1 - i)
                 = sums (epart e1) ! (nat numBins - 1 - i) + sums (epart e2) ! i)
         \<and> merge (nat numBins) (epart e1) (epart e2) = Inr (sort_bins C)
         \<and> sorted (sums (sort_bins C))
         \<and> mset (zip (sums (sort_bins C)) (bins (sort_bins C))) = mset (zip (sums C) (bins C))
         \<and> state_after numBins items valueof (Suc j) = Inr (h', Suc c)
         \<and> (\<exists>k. (k, c, sort_bins C, sums (sort_bins C)) \<in> set h')"
proof -
  let ?K = "nat numBins"
  from run_step [OF assms, of valueof] obtain e1 e2 rest m h' where
    r: "state_after numBins items valueof j = Inr (e1 # e2 # rest, length items + j)"
    "heap_inv ?K valueof (e1 # e2 # rest, length items + j)"
    "merge ?K (epart e1) (epart e2) = Inr m"
    "mset h' = add_mset (- (Max (set (sums m)) - Min (set (sums m))), length items + j, m, sums m)
       (mset rest)"
    "state_after numBins items valueof (Suc j) = Inr (h', Suc (length items + j))"
    by blast
  have wf: "wf_part ?K (epart e1)" "wf_part ?K (epart e2)"
    using r(2) by (simp_all add: heap_inv_def)
  from merge_ok [OF wf] obtain C where
    C: "combine_loop ?K [0..<?K] (epart e1) (epart e2) = Inr C"
    "merge ?K (epart e1) (epart e2) = Inr (sort_bins C)" "wf_part ?K C"
    "\<forall>d < ?K. bins C ! d = bins (epart e1) ! d @ bins (epart e2) ! (?K - 1 - d)"
    "\<forall>d < ?K. sums C ! d = sums (epart e1) ! d + sums (epart e2) ! (?K - 1 - d)"
    by blast
  have m: "m = sort_bins C" using r(3) C(2) by simp
  have pair: "bins C ! (?K - 1 - i) = bins (epart e1) ! (?K - 1 - i) @ bins (epart e2) ! i
            \<and> sums C ! (?K - 1 - i) = sums (epart e1) ! (?K - 1 - i) + sums (epart e2) ! i"
    if i: "i < ?K" for i
  proof -
    have d: "?K - 1 - i < ?K" "?K - 1 - (?K - 1 - i) = i" using i by simp_all
    have "bins C ! (?K - 1 - i)
        = bins (epart e1) ! (?K - 1 - i) @ bins (epart e2) ! (?K - 1 - (?K - 1 - i))"
      "sums C ! (?K - 1 - i)
        = sums (epart e1) ! (?K - 1 - i) + sums (epart e2) ! (?K - 1 - (?K - 1 - i))"
      using C(4,5) d(1) by blast+
    then show ?thesis unfolding d(2) by (rule conjI)
  qed
  have "(- (Max (set (sums m)) - Min (set (sums m))), length items + j, m, sums m) \<in> set h'"
    using r(4) by (metis set_mset_mset union_single_eq_member)
  then have pushed: "(- (Max (set (sums (sort_bins C))) - Min (set (sums (sort_bins C)))),
      length items + j, sort_bins C, sums (sort_bins C)) \<in> set h'"
    unfolding m .
  show ?thesis
  proof (intro exI conjI)
    show "state_after numBins items valueof j = Inr (e1 # e2 # rest, length items + j)"
      by (rule r(1))
    show "wf_part ?K (epart e1)" "wf_part ?K (epart e2)" by (rule wf)+
    show "combine_loop ?K [0..<?K] (epart e1) (epart e2) = Inr C" by (rule C(1))
    show "wf_part ?K C" by (rule C(3))
    show "\<forall>i < ?K.
               bins C ! (?K - 1 - i) = bins (epart e1) ! (?K - 1 - i) @ bins (epart e2) ! i
             \<and> sums C ! (?K - 1 - i) = sums (epart e1) ! (?K - 1 - i) + sums (epart e2) ! i"
      using pair by blast
    show "merge ?K (epart e1) (epart e2) = Inr (sort_bins C)" by (rule C(2))
    show "sorted (sums (sort_bins C))" by (rule sort_bins_sorted)
    show "mset (zip (sums (sort_bins C)) (bins (sort_bins C))) = mset (zip (sums C) (bins C))"
      by (rule sort_bins_perm [OF C(3)])
    show "state_after numBins items valueof (Suc j) = Inr (h', Suc (length items + j))"
      by (rule r(5))
    show "(- (Max (set (sums (sort_bins C))) - Min (set (sums (sort_bins C)))),
      length items + j, sort_bins C, sums (sort_bins C)) \<in> set h'"
      by (rule pushed)
  qed
qed

theorem merge_pairs_largest_with_smallest_witness:
  "\<exists>e1 e2 rest c C h'.
           state_after 3 [8, 6, 5, 7, 4 :: int] (\<lambda>x. x) 1 = Inr (e1 # e2 # rest, c)
         \<and> wf_part (nat 3) (epart e1) \<and> wf_part (nat 3) (epart e2)
         \<and> combine_loop (nat 3) [0..<nat 3] (epart e1) (epart e2) = Inr C
         \<and> wf_part (nat 3) C
         \<and> (\<forall>i < nat 3.
               bins C ! (nat 3 - 1 - i) = bins (epart e1) ! (nat 3 - 1 - i) @ bins (epart e2) ! i
             \<and> sums C ! (nat 3 - 1 - i) = sums (epart e1) ! (nat 3 - 1 - i) + sums (epart e2) ! i)
         \<and> merge (nat 3) (epart e1) (epart e2) = Inr (sort_bins C)
         \<and> sorted (sums (sort_bins C))
         \<and> mset (zip (sums (sort_bins C)) (bins (sort_bins C))) = mset (zip (sums C) (bins C))
         \<and> state_after 3 [8, 6, 5, 7, 4 :: int] (\<lambda>x. x) (Suc 1) = Inr (h', Suc c)
         \<and> (\<exists>k. (k, c, sort_bins C, sums (sort_bins C)) \<in> set h')"
  by (rule merge_pairs_largest_with_smallest [of 3 1 "[8, 6, 5, 7, 4 :: int]" "\<lambda>x. x"]) simp_all

text \<open>
  C4, as amended. For \<open>n\<close> items the merge loop runs \<open>n - 1\<close> iterations. At the head of
  iteration \<open>j\<close> the structure holds \<open>n - j\<close> entries; the iteration pops the two least
  entries under (key, sequence number), hence the two lowest-keyed ones, merges their
  partitions and pushes one entry whose key is the negative of (max sum - min sum) of the
  merged partition. After \<open>n - 1\<close> iterations exactly one entry remains and its
  partition is the result.
\<close>

theorem merge_loop_pops_least_entries:
  fixes valueof :: "'a \<Rightarrow> int"
  assumes "1 \<le> numBins" "items \<noteq> []"
  shows "(\<forall>j < length items - 1. \<exists>e1 e2 rest m h'.
            state_after numBins items valueof j = Inr (e1 # e2 # rest, length items + j)
          \<and> length (e1 # e2 # rest) = length items - j
          \<and> heappop (e1 # e2 # rest) = Inr (e1, e2 # rest)
          \<and> heappop (e2 # rest) = Inr (e2, rest)
          \<and> (\<forall>e \<in> set (e2 # rest). entry_before e1 e \<and> ekey e1 \<le> ekey e)
          \<and> (\<forall>e \<in> set rest. entry_before e2 e \<and> ekey e2 \<le> ekey e)
          \<and> merge (nat numBins) (epart e1) (epart e2) = Inr m
          \<and> mset h' = add_mset (- (Max (set (sums m)) - Min (set (sums m))),
                                 length items + j, m, sums m) (mset rest)
          \<and> state_after numBins items valueof (Suc j) = Inr (h', length items + Suc j)
          \<and> length h' = length items - Suc j)
       \<and> (\<exists>e. state_after numBins items valueof (length items - 1)
                  = Inr ([e], 2 * length items - 1)
              \<and> solve numBins items valueof = Inr (epart e))"
proof (intro conjI allI impI)
  fix j assume "j < length items - 1"
  then have j: "Suc j < length items" by simp
  let ?K = "nat numBins"
  from run_step [OF assms(1) j, of valueof] obtain e1 e2 rest m h' where
    r: "state_after numBins items valueof j = Inr (e1 # e2 # rest, length items + j)"
    "heap_inv ?K valueof (e1 # e2 # rest, length items + j)"
    "Suc (Suc (length rest)) = length items - j"
    "merge ?K (epart e1) (epart e2) = Inr m"
    "mset h' = add_mset (- (Max (set (sums m)) - Min (set (sums m))), length items + j, m, sums m)
       (mset rest)"
    "state_after numBins items valueof (Suc j) = Inr (h', Suc (length items + j))"
    by blast
  have least: "\<forall>e \<in> set (e2 # rest). entry_before e1 e \<and> ekey e1 \<le> ekey e"
    "\<forall>e \<in> set rest. entry_before e2 e \<and> ekey e2 \<le> ekey e"
    using heap_head_least [OF r(2)] by (auto simp: entry_before_def)
  have "length h' = Suc (length rest)" using r(5) by (metis size_mset size_add_mset)
  then have len: "length h' = length items - Suc j" using r(3) by simp
  show "\<exists>e1 e2 rest m h'.
            state_after numBins items valueof j = Inr (e1 # e2 # rest, length items + j)
          \<and> length (e1 # e2 # rest) = length items - j
          \<and> heappop (e1 # e2 # rest) = Inr (e1, e2 # rest)
          \<and> heappop (e2 # rest) = Inr (e2, rest)
          \<and> (\<forall>e \<in> set (e2 # rest). entry_before e1 e \<and> ekey e1 \<le> ekey e)
          \<and> (\<forall>e \<in> set rest. entry_before e2 e \<and> ekey e2 \<le> ekey e)
          \<and> merge (nat numBins) (epart e1) (epart e2) = Inr m
          \<and> mset h' = add_mset (- (Max (set (sums m)) - Min (set (sums m))),
                                 length items + j, m, sums m) (mset rest)
          \<and> state_after numBins items valueof (Suc j) = Inr (h', length items + Suc j)
          \<and> length h' = length items - Suc j"
  proof (intro exI conjI)
    show "state_after numBins items valueof j = Inr (e1 # e2 # rest, length items + j)"
      by (rule r(1))
    show "length (e1 # e2 # rest) = length items - j" using r(3) by simp
    show "heappop (e1 # e2 # rest) = Inr (e1, e2 # rest)" by simp
    show "heappop (e2 # rest) = Inr (e2, rest)" by simp
    show "\<forall>e \<in> set (e2 # rest). entry_before e1 e \<and> ekey e1 \<le> ekey e" by (rule least(1))
    show "\<forall>e \<in> set rest. entry_before e2 e \<and> ekey e2 \<le> ekey e" by (rule least(2))
    show "merge ?K (epart e1) (epart e2) = Inr m" by (rule r(4))
    show "mset h' = add_mset (- (Max (set (sums m)) - Min (set (sums m))),
                                 length items + j, m, sums m) (mset rest)" by (rule r(5))
    show "state_after numBins items valueof (Suc j) = Inr (h', length items + Suc j)"
      using r(6) by simp
    show "length h' = length items - Suc j" by (rule len)
  qed
next
  show "\<exists>e. state_after numBins items valueof (length items - 1)
                  = Inr ([e], 2 * length items - 1)
              \<and> solve numBins items valueof = Inr (epart e)"
    using final_state [OF assms, of valueof] by blast
qed

theorem merge_loop_pops_least_entries_witness:
  "(\<exists>e1 e2 rest m h'.
            state_after 3 [8, 6, 5, 7, 4 :: int] (\<lambda>x. x) 1
              = Inr (e1 # e2 # rest, length [8, 6, 5, 7, 4 :: int] + 1)
          \<and> length (e1 # e2 # rest) = length [8, 6, 5, 7, 4 :: int] - 1
          \<and> heappop (e1 # e2 # rest) = Inr (e1, e2 # rest)
          \<and> heappop (e2 # rest) = Inr (e2, rest)
          \<and> (\<forall>e \<in> set (e2 # rest). entry_before e1 e \<and> ekey e1 \<le> ekey e)
          \<and> (\<forall>e \<in> set rest. entry_before e2 e \<and> ekey e2 \<le> ekey e)
          \<and> merge (nat 3) (epart e1) (epart e2) = Inr m
          \<and> mset h' = add_mset (- (Max (set (sums m)) - Min (set (sums m))),
                                 length [8, 6, 5, 7, 4 :: int] + 1, m, sums m) (mset rest)
          \<and> state_after 3 [8, 6, 5, 7, 4 :: int] (\<lambda>x. x) (Suc 1)
              = Inr (h', length [8, 6, 5, 7, 4 :: int] + Suc 1)
          \<and> length h' = length [8, 6, 5, 7, 4 :: int] - Suc 1)
       \<and> (\<exists>e. state_after 3 [8, 6, 5, 7, 4 :: int] (\<lambda>x. x) (length [8, 6, 5, 7, 4 :: int] - 1)
                  = Inr ([e], 2 * length [8, 6, 5, 7, 4 :: int] - 1)
              \<and> solve 3 [8, 6, 5, 7, 4 :: int] (\<lambda>x. x) = Inr (epart e))"
proof -
  have h: "1 \<le> (3 :: int)" "[8, 6, 5, 7, 4 :: int] \<noteq> []" by simp_all
  have j: "(1 :: nat) < length [8, 6, 5, 7, 4 :: int] - 1" by simp
  note t = merge_loop_pops_least_entries [OF h, of "\<lambda>x. x"]
  show ?thesis
    by (rule conjI [OF t [THEN conjunct1, rule_format, OF j] t [THEN conjunct2]])
qed

text \<open>
  The claim C4 as written has the two highest-keyed entries popped. With two bins and the
  items 1, 2, 3 the first pop returns the entry of key -3 while an entry of key -1 stays.
\<close>

theorem pops_highest_key_counterexample:
  "state_after 2 [1, 2, 3 :: int] id 0
     = Inr ([(- 3, 2, \<lparr>num = 2, sums = [0, 3], bins = [[], [3]]\<rparr>, [0, 3]),
             (- 2, 1, \<lparr>num = 2, sums = [0, 2], bins = [[], [2]]\<rparr>, [0, 2]),
             (- 1, 0, \<lparr>num = 2, sums = [0, 1], bins = [[], [1]]\<rparr>, [0, 1])], 3)
   \<and> heappop [(- 3, 2, \<lparr>num = 2, sums = [0, 3], bins = [[], [3 :: int]]\<rparr>, [0, 3]),
               (- 2, 1, \<lparr>num = 2, sums = [0, 2], bins = [[], [2]]\<rparr>, [0, 2]),
               (- 1, 0, \<lparr>num = 2, sums = [0, 1], bins = [[], [1]]\<rparr>, [0, 1])]
     = Inr ((- 3, 2, \<lparr>num = 2, sums = [0, 3], bins = [[], [3]]\<rparr>, [0, 3]),
            [(- 2, 1, \<lparr>num = 2, sums = [0, 2], bins = [[], [2]]\<rparr>, [0, 2]),
             (- 1, 0, \<lparr>num = 2, sums = [0, 1], bins = [[], [1]]\<rparr>, [0, 1])])
   \<and> ekey (- 3, 2, \<lparr>num = 2, sums = [0, 3], bins = [[], [3 :: int]]\<rparr>, [0, 3])
       < ekey (- 1, 0, \<lparr>num = 2, sums = [0, 1], bins = [[], [1 :: int]]\<rparr>, [0, 1])"
  by code_simp

text \<open>
  C5. Seeding: for every position \<open>i\<close> of the input, the priority structure holds after
  seeding the entry with sequence number \<open>i\<close>, key the negated value of item \<open>i\<close>, and a
  partition of \<open>K\<close> bins with that item alone in bin \<open>K - 1\<close> and every other bin empty;
  it holds these entries and no other.
\<close>

theorem seeding_one_entry_per_item:
  fixes valueof :: "'a \<Rightarrow> int"
  assumes "1 \<le> numBins"
  shows "\<exists>h. state_after numBins items valueof 0 = Inr (h, length items)
           \<and> mset h = mset (map (spec_seed_entry (nat numBins) valueof items) [0..<length items])
           \<and> (\<forall>i < length items.
                 spec_seed_entry (nat numBins) valueof items i \<in> set h
               \<and> ekey (spec_seed_entry (nat numBins) valueof items i) = - valueof (items ! i)
               \<and> eseq (spec_seed_entry (nat numBins) valueof items i) = i
               \<and> num (epart (spec_seed_entry (nat numBins) valueof items i)) = nat numBins
               \<and> bins (epart (spec_seed_entry (nat numBins) valueof items i)) ! (nat numBins - 1)
                    = [items ! i]
               \<and> (\<forall>d < nat numBins - 1.
                    bins (epart (spec_seed_entry (nat numBins) valueof items i)) ! d = []))"
proof -
  let ?K = "nat numBins"
  have K: "0 < ?K" using assms by simp
  from seed_state [OF assms, of items valueof] obtain h where
    h: "state_after numBins items valueof 0 = Inr (h, length items)"
    "mset h = mset (map (spec_seed_entry ?K valueof items) [0..<length items])"
    by blast
  have s: "set h = set (map (spec_seed_entry ?K valueof items) [0..<length items])"
    using h(2) by (rule mset_eq_setD)
  have mem: "spec_seed_entry ?K valueof items i \<in> set h" if "i < length items" for i
    unfolding s using that by simp
  have shape: "ekey (spec_seed_entry ?K valueof items i) = - valueof (items ! i)
      \<and> eseq (spec_seed_entry ?K valueof items i) = i
      \<and> num (epart (spec_seed_entry ?K valueof items i)) = ?K
      \<and> bins (epart (spec_seed_entry ?K valueof items i)) ! (?K - 1) = [items ! i]
      \<and> (\<forall>d < ?K - 1. bins (epart (spec_seed_entry ?K valueof items i)) ! d = [])" for i
    using one_item_shape [OF K, of valueof "items ! i"]
    by (simp add: spec_seed_entry_def ekey_def eseq_def epart_def spec_one_item_partition_def)
  show ?thesis using h mem shape by blast
qed

theorem seeding_one_entry_per_item_witness:
  "\<exists>h. state_after 3 [8, 6, 5, 7, 4 :: int] (\<lambda>x. x) 0 = Inr (h, length [8, 6, 5, 7, 4 :: int])
     \<and> mset h = mset (map (spec_seed_entry (nat 3) (\<lambda>x. x) [8, 6, 5, 7, 4 :: int])
                         [0..<length [8, 6, 5, 7, 4 :: int]])
     \<and> (\<forall>i < length [8, 6, 5, 7, 4 :: int].
           spec_seed_entry (nat 3) (\<lambda>x. x) [8, 6, 5, 7, 4 :: int] i \<in> set h
         \<and> ekey (spec_seed_entry (nat 3) (\<lambda>x. x) [8, 6, 5, 7, 4 :: int] i)
              = - ([8, 6, 5, 7, 4 :: int] ! i)
         \<and> eseq (spec_seed_entry (nat 3) (\<lambda>x. x) [8, 6, 5, 7, 4 :: int] i) = i
         \<and> num (epart (spec_seed_entry (nat 3) (\<lambda>x. x) [8, 6, 5, 7, 4 :: int] i)) = nat 3
         \<and> bins (epart (spec_seed_entry (nat 3) (\<lambda>x. x) [8, 6, 5, 7, 4 :: int] i)) ! (nat 3 - 1)
              = [[8, 6, 5, 7, 4 :: int] ! i]
         \<and> (\<forall>d < nat 3 - 1.
              bins (epart (spec_seed_entry (nat 3) (\<lambda>x. x) [8, 6, 5, 7, 4 :: int] i)) ! d = []))"
  by (rule seeding_one_entry_per_item [of 3 "[8, 6, 5, 7, 4 :: int]" "\<lambda>x. x"]) simp

text \<open>
  C6. With \<open>numBins \<ge> 1\<close> and a non-empty item sequence no step of the merge loop fails:
  at the head of every iteration the structure holds at least two entries, so both pops
  return; the merge (every \<open>combine_bins\<close> call in range, then the sort), the spread and
  the push return; and the whole call returns a partition.
\<close>

theorem merge_loop_raises_nothing:
  fixes valueof :: "'a \<Rightarrow> int"
  assumes "1 \<le> numBins" "items \<noteq> []"
  shows "(\<forall>j < length items - 1. \<exists>e1 e2 rest c m d h'.
            state_after numBins items valueof j = Inr (e1 # e2 # rest, c)
          \<and> heappop (e1 # e2 # rest) = Inr (e1, e2 # rest)
          \<and> heappop (e2 # rest) = Inr (e2, rest)
          \<and> wf_part (nat numBins) (epart e1) \<and> wf_part (nat numBins) (epart e2)
          \<and> merge (nat numBins) (epart e1) (epart e2) = Inr m
          \<and> spread (sums m) = Inr d
          \<and> heappush rest (- d, c, m, sums m) = Inr h'
          \<and> state_after numBins items valueof (Suc j) = Inr (h', Suc c))
       \<and> (\<exists>p. solve numBins items valueof = Inr p)"
proof (intro conjI allI impI)
  fix j assume "j < length items - 1"
  then have j: "Suc j < length items" by simp
  let ?K = "nat numBins"
  from run_step [OF assms(1) j, of valueof] obtain e1 e2 rest m h' where
    r: "state_after numBins items valueof j = Inr (e1 # e2 # rest, length items + j)"
    "heap_inv ?K valueof (e1 # e2 # rest, length items + j)"
    "merge ?K (epart e1) (epart e2) = Inr m" "wf_part ?K m"
    "heappush rest (- (Max (set (sums m)) - Min (set (sums m))), length items + j, m, sums m)
       = Inr h'"
    "state_after numBins items valueof (Suc j) = Inr (h', Suc (length items + j))"
    by blast
  have wf: "wf_part ?K (epart e1)" "wf_part ?K (epart e2)"
    using r(2) by (simp_all add: heap_inv_def)
  have "sums m \<noteq> []" using r(4) assms(1) by (auto simp: wf_part_def)
  then have sp: "spread (sums m) = Inr (Max (set (sums m)) - Min (set (sums m)))"
    by (rule spread_ok)
  show "\<exists>e1 e2 rest c m d h'.
            state_after numBins items valueof j = Inr (e1 # e2 # rest, c)
          \<and> heappop (e1 # e2 # rest) = Inr (e1, e2 # rest)
          \<and> heappop (e2 # rest) = Inr (e2, rest)
          \<and> wf_part (nat numBins) (epart e1) \<and> wf_part (nat numBins) (epart e2)
          \<and> merge (nat numBins) (epart e1) (epart e2) = Inr m
          \<and> spread (sums m) = Inr d
          \<and> heappush rest (- d, c, m, sums m) = Inr h'
          \<and> state_after numBins items valueof (Suc j) = Inr (h', Suc c)"
  proof (intro exI conjI)
    show "state_after numBins items valueof j = Inr (e1 # e2 # rest, length items + j)"
      by (rule r(1))
    show "heappop (e1 # e2 # rest) = Inr (e1, e2 # rest)" by simp
    show "heappop (e2 # rest) = Inr (e2, rest)" by simp
    show "wf_part ?K (epart e1)" "wf_part ?K (epart e2)" by (rule wf)+
    show "merge ?K (epart e1) (epart e2) = Inr m" by (rule r(3))
    show "spread (sums m) = Inr (Max (set (sums m)) - Min (set (sums m)))" by (rule sp)
    show "heappush rest (- (Max (set (sums m)) - Min (set (sums m))), length items + j, m, sums m)
       = Inr h'" by (rule r(5))
    show "state_after numBins items valueof (Suc j) = Inr (h', Suc (length items + j))"
      by (rule r(6))
  qed
next
  show "\<exists>p. solve numBins items valueof = Inr p"
    using final_state [OF assms, of valueof] by blast
qed

theorem merge_loop_raises_nothing_witness:
  "(\<exists>e1 e2 rest c m d h'.
            state_after 3 [8, 6, 5, 7, 4 :: int] (\<lambda>x. x) 1 = Inr (e1 # e2 # rest, c)
          \<and> heappop (e1 # e2 # rest) = Inr (e1, e2 # rest)
          \<and> heappop (e2 # rest) = Inr (e2, rest)
          \<and> wf_part (nat 3) (epart e1) \<and> wf_part (nat 3) (epart e2)
          \<and> merge (nat 3) (epart e1) (epart e2) = Inr m
          \<and> spread (sums m) = Inr d
          \<and> heappush rest (- d, c, m, sums m) = Inr h'
          \<and> state_after 3 [8, 6, 5, 7, 4 :: int] (\<lambda>x. x) (Suc 1) = Inr (h', Suc c))
       \<and> (\<exists>p. solve 3 [8, 6, 5, 7, 4 :: int] (\<lambda>x. x) = Inr p)"
proof -
  have h: "1 \<le> (3 :: int)" "[8, 6, 5, 7, 4 :: int] \<noteq> []" by simp_all
  have j: "(1 :: nat) < length [8, 6, 5, 7, 4 :: int] - 1" by simp
  note t = merge_loop_raises_nothing [OF h, of "\<lambda>x. x"]
  show ?thesis
    by (rule conjI [OF t [THEN conjunct1, rule_format, OF j] t [THEN conjunct2]])
qed

text \<open>
  C7. For two distinct non-negative values \<open>a\<close> and \<open>b\<close>, solving with two bins, the items
  \<open>[a, b]\<close> and the identity value function returns the partition with the smaller value
  alone in bin 0 and the larger alone in bin 1, the sums being the two values.
\<close>

theorem two_items_two_bins_split:
  assumes "a \<noteq> b" "0 \<le> a" "0 \<le> b"
  shows "solve 2 [a, b] (\<lambda>x. x)
           = Inr \<lparr>num = 2, sums = [min a b, max a b], bins = [[min a b], [max a b]]\<rparr>"
proof -
  have up: "[0..<Suc (Suc 0)] = [0, Suc 0]" by (simp add: upt_rec)
  show ?thesis
  proof (cases "a < b")
    case True
    then show ?thesis
      by (simp add: solve_def kk_def create_empty_def numeral_2_eq_2 add_item_to_bin_def
          entry_lt_def ekey_def eseq_def epart_def kk_step_def merge_def up combine_bins_def
          sort_bins_def spread_def Let_def)
  next
    case False
    then have "b < a" using assms(1) by simp
    then show ?thesis
      by (simp add: solve_def kk_def create_empty_def numeral_2_eq_2 add_item_to_bin_def
          entry_lt_def ekey_def eseq_def epart_def kk_step_def merge_def up combine_bins_def
          sort_bins_def spread_def Let_def)
  qed
qed

theorem two_items_two_bins_split_witness:
  "solve 2 [7, 4 :: int] (\<lambda>x. x)
     = Inr \<lparr>num = 2, sums = [min 7 4, max 7 4], bins = [[min 7 4], [max 7 4]]\<rparr>"
  by (rule two_items_two_bins_split [of 7 4]) simp_all

text \<open>
  C9. In every state of a run (after seeding and after each iteration) the sequence
  numbers of the entries are pairwise different and below the counter, which is the number
  of pushes so far. So the comparison of two different entries, and of the entry about to
  be pushed with any entry, is decided at the key or at the sequence number and never
  reaches the partition; the entries are totally ordered by (key, sequence number); the
  entry popped is before every other one: it has a smaller key, or the same key and a
  smaller sequence number, that is, it was pushed earlier.
\<close>

theorem entries_ordered_by_key_then_sequence:
  fixes valueof :: "'a \<Rightarrow> int"
  assumes "1 \<le> numBins" "j < length items"
  shows "\<exists>h. state_after numBins items valueof j = Inr (h, length items + j)
           \<and> distinct (map eseq h) \<and> (\<forall>e \<in> set h. eseq e < length items + j)
           \<and> (\<forall>a \<in> set h. \<forall>b \<in> set h. a \<noteq> b \<longrightarrow>
                 decided_at a b \<le> 1 \<and> entry_lt a b = Inr (entry_before a b)
               \<and> (entry_before a b \<or> entry_before b a)
               \<and> \<not> (entry_before a b \<and> entry_before b a))
           \<and> (\<forall>a \<in> set h. \<forall>k p s.
                 decided_at (k, length items + j, p, s) a \<le> 1
               \<and> entry_lt (k, length items + j, p, s) a
                    = Inr (entry_before (k, length items + j, p, s) a))
           \<and> sorted_wrt entry_before h
           \<and> (\<forall>e1 h1. heappop h = Inr (e1, h1) \<longrightarrow>
                 (\<forall>e \<in> set h1. ekey e1 < ekey e \<or> (ekey e1 = ekey e \<and> eseq e1 < eseq e)))"
proof -
  from state_after_ok [OF assms, of valueof] obtain h where
    h: "state_after numBins items valueof j = Inr (h, length items + j)"
    "heap_inv (nat numBins) valueof (h, length items + j)"
    by blast
  have si: "seq_inv (h, length items + j)" using seq_inv_state [OF h(1)] .
  have d: "distinct (map eseq h)" and lt: "\<forall>e \<in> set h. eseq e < length items + j"
    using si by (simp_all add: seq_inv_def)
  have srt: "sorted_wrt entry_before h" using h(2) by (simp add: heap_inv_def)
  have pair: "\<forall>a \<in> set h. \<forall>b \<in> set h. a \<noteq> b \<longrightarrow>
                 decided_at a b \<le> 1 \<and> entry_lt a b = Inr (entry_before a b)
               \<and> (entry_before a b \<or> entry_before b a)
               \<and> \<not> (entry_before a b \<and> entry_before b a)"
  proof (intro ballI impI)
    fix a b assume "a \<in> set h" "b \<in> set h" "a \<noteq> b"
    then have "eseq a \<noteq> eseq b" using d by (meson distinct_map inj_onD)
    then show "decided_at a b \<le> 1 \<and> entry_lt a b = Inr (entry_before a b)
               \<and> (entry_before a b \<or> entry_before b a)
               \<and> \<not> (entry_before a b \<and> entry_before b a)"
      by (rule decided_by_seq)
  qed
  have new: "\<forall>a \<in> set h. \<forall>k p s.
                 decided_at (k, length items + j, p, s) a \<le> 1
               \<and> entry_lt (k, length items + j, p, s) a
                    = Inr (entry_before (k, length items + j, p, s) a)"
  proof (intro ballI allI)
    fix a :: "'a entry" and k :: int and p :: "'a partition" and s :: "int list"
    assume "a \<in> set h"
    then have "eseq (k, length items + j, p, s) \<noteq> eseq a" using lt by (auto simp: eseq_def)
    then show "decided_at (k, length items + j, p, s) a \<le> 1
               \<and> entry_lt (k, length items + j, p, s) a
                    = Inr (entry_before (k, length items + j, p, s) a)"
      using decided_by_seq by blast
  qed
  have pop: "\<forall>e1 h1. heappop h = Inr (e1, h1) \<longrightarrow>
                 (\<forall>e \<in> set h1. ekey e1 < ekey e \<or> (ekey e1 = ekey e \<and> eseq e1 < eseq e))"
  proof (intro allI impI)
    fix e1 h1 assume "heappop h = Inr (e1, h1)"
    then have "h = e1 # h1" by (cases h) auto
    then show "\<forall>e \<in> set h1. ekey e1 < ekey e \<or> (ekey e1 = ekey e \<and> eseq e1 < eseq e)"
      using srt by (auto simp: entry_before_def)
  qed
  show ?thesis using h(1) d lt pair new srt pop by blast
qed

theorem entries_ordered_by_key_then_sequence_witness:
  "\<exists>h. state_after 3 [8, 6, 5, 7, 4 :: int] (\<lambda>x. x) 2 = Inr (h, length [8, 6, 5, 7, 4 :: int] + 2)
           \<and> distinct (map eseq h) \<and> (\<forall>e \<in> set h. eseq e < length [8, 6, 5, 7, 4 :: int] + 2)
           \<and> (\<forall>a \<in> set h. \<forall>b \<in> set h. a \<noteq> b \<longrightarrow>
                 decided_at a b \<le> 1 \<and> entry_lt a b = Inr (entry_before a b)
               \<and> (entry_before a b \<or> entry_before b a)
               \<and> \<not> (entry_before a b \<and> entry_before b a))
           \<and> (\<forall>a \<in> set h. \<forall>k p s.
                 decided_at (k, length [8, 6, 5, 7, 4 :: int] + 2, p, s) a \<le> 1
               \<and> entry_lt (k, length [8, 6, 5, 7, 4 :: int] + 2, p, s) a
                    = Inr (entry_before (k, length [8, 6, 5, 7, 4 :: int] + 2, p, s) a))
           \<and> sorted_wrt entry_before h
           \<and> (\<forall>e1 h1. heappop h = Inr (e1, h1) \<longrightarrow>
                 (\<forall>e \<in> set h1. ekey e1 < ekey e \<or> (ekey e1 = ekey e \<and> eseq e1 < eseq e)))"
  by (rule entries_ordered_by_key_then_sequence [of 3 2 "[8, 6, 5, 7, 4 :: int]" "\<lambda>x. x"]) simp_all

text \<open>
  C10. With non-negative values every partition in the priority structure, after seeding
  and after every iteration, is ascending by sum (and the sums pushed beside it are its
  sums); in particular both operands of every merge are.
\<close>

theorem pushed_partitions_sorted:
  fixes valueof :: "'a \<Rightarrow> int"
  assumes "1 \<le> numBins" "\<forall>x \<in> set items. 0 \<le> valueof x" "j < length items"
  shows "\<exists>h c. state_after numBins items valueof j = Inr (h, c)
           \<and> (\<forall>e \<in> set h. sorted (sums (epart e)) \<and> esnap e = sums (epart e))
           \<and> (Suc j < length items \<longrightarrow>
                 (\<exists>e1 e2 rest. h = e1 # e2 # rest
                    \<and> sorted (sums (epart e1)) \<and> sorted (sums (epart e2))))"
proof -
  from state_after_ok [OF assms(1,3), of valueof] assms(2) obtain h where
    h: "state_after numBins items valueof j = Inr (h, length items + j)"
    "heap_inv (nat numBins) valueof (h, length items + j)" "length h = length items - j"
    "\<forall>e \<in> set h. sorted (sums (epart e))"
    by blast
  have snap: "\<forall>e \<in> set h. esnap e = sums (epart e)" using h(2) by (simp add: heap_inv_def)
  have ops: "\<exists>e1 e2 rest. h = e1 # e2 # rest \<and> sorted (sums (epart e1)) \<and> sorted (sums (epart e2))"
    if "Suc j < length items"
  proof -
    have "2 \<le> length h" using h(3) that by simp
    then obtain e1 e2 rest where hh: "h = e1 # e2 # rest" by (cases h; cases "tl h") auto
    then show ?thesis using h(4) by simp
  qed
  show ?thesis using h(1,4) snap ops by blast
qed

theorem pushed_partitions_sorted_witness:
  "\<exists>h c. state_after 3 [8, 6, 5, 7, 4 :: int] (\<lambda>x. x) 2 = Inr (h, c)
           \<and> (\<forall>e \<in> set h. sorted (sums (epart e)) \<and> esnap e = sums (epart e))
           \<and> (Suc 2 < length [8, 6, 5, 7, 4 :: int] \<longrightarrow>
                 (\<exists>e1 e2 rest. h = e1 # e2 # rest
                    \<and> sorted (sums (epart e1)) \<and> sorted (sums (epart e2))))"
  by (rule pushed_partitions_sorted [of 3 "[8, 6, 5, 7, 4 :: int]" "\<lambda>x. x" 2]) simp_all

end
